theory Spec2Isabelle
  imports Complex_Main "HOL-Library.Multiset" "HOL-Library.Monad_Syntax"
begin

section \<open>C++ arithmetic used by the shutter calculator\<close>

subsection \<open>The type \<open>int\<close>\<close>

text \<open>
  \<open>int\<close> is a 32-bit two's complement integer. The model keeps its values as
  mathematical integers and writes the range out wherever the source leaves it:
  signed overflow and an out-of-range conversion are undefined behaviour, which the
  model returns as \<open>None\<close>.
\<close>

definition INT_MIN :: int where
  "INT_MIN = - 2147483648"

definition INT_MAX :: int where
  "INT_MAX = 2147483647"

definition in_int_range :: "int \<Rightarrow> bool" where
  "in_int_range i \<longleftrightarrow> INT_MIN \<le> i \<and> i \<le> INT_MAX"

definition int_add :: "int \<Rightarrow> int \<Rightarrow> int option" where
  \<comment> \<open>\<open>a + b\<close> on \<open>int\<close>: undefined when the sum leaves the range\<close>
  "int_add a b = (if in_int_range (a + b) then Some (a + b) else None)"

definition tdiv :: "int \<Rightarrow> int \<Rightarrow> int" where
  \<comment> \<open>\<open>a / b\<close> on \<open>int\<close> truncates towards zero; used with a non-zero literal divisor\<close>
  "tdiv a b = sgn a * sgn b * (\<bar>a\<bar> div \<bar>b\<bar>)"

definition tmod :: "int \<Rightarrow> int \<Rightarrow> int" where
  \<comment> \<open>\<open>a % b\<close> on \<open>int\<close>: the remainder has the sign of \<open>a\<close>\<close>
  "tmod a b = a - b * tdiv a b"

definition shl_one :: "int \<Rightarrow> int option" where
  \<comment> \<open>\<open>1 << s\<close> on \<open>int\<close> (C++20): undefined for a negative shift or one of the width
      or more; the value is congruent to \<open>2 ^ s\<close> modulo \<open>2 ^ 32\<close>, so \<open>1 << 31\<close> is
      \<open>INT_MIN\<close>\<close>
  "shl_one s = (if s < 0 \<or> 32 \<le> s then None
                else if s = 31 then Some INT_MIN
                else Some (2 ^ nat s))"

subsection \<open>The type \<open>double\<close>\<close>

text \<open>
  A \<open>double\<close> is an IEEE 754 binary64 value: a finite number, which the model holds
  as the rational it denotes, an infinity or a NaN. The two zeros are one value here;
  the sign of a zero could only show in \<open>1.0 / input\<close> of \<open>doubleToString\<close>, where both
  quotients are infinite and their conversion to \<open>int\<close> is undefined alike. Arithmetic
  rounds the exact result to the nearest binary64 value, ties to even.
\<close>

datatype double = Finite rat | PInf | NInf | NaN

fun bitlength :: "nat \<Rightarrow> nat" where
  "bitlength n = (if n = 0 then 0 else Suc (bitlength (n div 2)))"

declare bitlength.simps [simp del]

definition pow2 :: "int \<Rightarrow> rat" where
  "pow2 e = (if 0 \<le> e then 2 ^ nat e else 1 / 2 ^ nat (- e))"

definition binade :: "rat \<Rightarrow> int" where
  \<comment> \<open>for \<open>0 < q\<close>: the exponent \<open>e\<close> with \<open>2 ^ e \<le> q < 2 ^ (e + 1)\<close>\<close>
  "binade q = (if 1 \<le> q then int (bitlength (nat \<lfloor>q\<rfloor>)) - 1
               else - int (bitlength (nat (\<lceil>1 / q\<rceil> - 1))))"

definition ulp_exp :: "rat \<Rightarrow> int" where
  \<comment> \<open>exponent of the spacing of binary64 values around \<open>q\<close>: 53 significant bits,
      and the subnormal spacing \<open>2 ^ - 1074\<close> at the bottom\<close>
  "ulp_exp q = max (binade \<bar>q\<bar> - 52) (- 1074)"

definition round_half_even :: "rat \<Rightarrow> int" where
  "round_half_even x =
     (let f = \<lfloor>x\<rfloor>; d = x - of_int f
      in if d < 1 / 2 then f
         else if 1 / 2 < d then f + 1
         else if even f then f else f + 1)"

definition round_to_double :: "rat \<Rightarrow> double" where
  "round_to_double q =
     (if q = 0 then Finite 0
      else let u = pow2 (ulp_exp q);
               r = of_int (round_half_even (q / u)) * u
           in if 2 ^ 1024 \<le> r then PInf
              else if r \<le> - (2 ^ 1024) then NInf
              else Finite r)"

definition is_double :: "rat \<Rightarrow> bool" where
  \<comment> \<open>the rationals that are binary64 values\<close>
  "is_double q \<longleftrightarrow>
     q = 0 \<or> (\<bar>q\<bar> < 2 ^ 1024 \<and> of_int \<lfloor>q / pow2 (ulp_exp q)\<rfloor> = q / pow2 (ulp_exp q))"

definition dsign :: "double \<Rightarrow> int" where
  "dsign d = (case d of Finite q \<Rightarrow> (if 0 < q then 1 else if q < 0 then - 1 else 0)
              | PInf \<Rightarrow> 1 | NInf \<Rightarrow> - 1 | NaN \<Rightarrow> 0)"

definition signed_inf :: "int \<Rightarrow> double" where
  "signed_inf s = (if 0 < s then PInf else if s < 0 then NInf else NaN)"

definition int_to_double :: "int \<Rightarrow> double" where
  \<comment> \<open>exact: every \<open>int\<close> has fewer than 53 bits\<close>
  "int_to_double i = Finite (of_int i)"

definition fmul :: "double \<Rightarrow> double \<Rightarrow> double" where
  "fmul a b =
     (case (a, b) of
        (Finite x, Finite y) \<Rightarrow> round_to_double (x * y)
      | _ \<Rightarrow> signed_inf (dsign a * dsign b))"

definition fdiv :: "double \<Rightarrow> double \<Rightarrow> double" where
  \<comment> \<open>a zero divisor is taken as \<open>+0\<close>: a finite \<open>x / 0\<close> has the sign of \<open>x\<close>\<close>
  "fdiv a b =
     (case (a, b) of
        (Finite x, Finite y) \<Rightarrow> if y = 0 then signed_inf (dsign a) else round_to_double (x / y)
      | (Finite x, PInf) \<Rightarrow> Finite 0
      | (Finite x, NInf) \<Rightarrow> Finite 0
      | (PInf, Finite y) \<Rightarrow> (if y < 0 then NInf else PInf)
      | (NInf, Finite y) \<Rightarrow> (if y < 0 then PInf else NInf)
      | _ \<Rightarrow> NaN)"

definition fadd :: "double \<Rightarrow> double \<Rightarrow> double" where
  "fadd a b =
     (case (a, b) of
        (Finite x, Finite y) \<Rightarrow> round_to_double (x + y)
      | (NaN, _) \<Rightarrow> NaN
      | (_, NaN) \<Rightarrow> NaN
      | (PInf, NInf) \<Rightarrow> NaN
      | (NInf, PInf) \<Rightarrow> NaN
      | (Finite x, _) \<Rightarrow> b
      | _ \<Rightarrow> a)"

definition fneg :: "double \<Rightarrow> double" where
  "fneg a = (case a of Finite x \<Rightarrow> Finite (- x) | PInf \<Rightarrow> NInf | NInf \<Rightarrow> PInf | NaN \<Rightarrow> NaN)"

definition fsub :: "double \<Rightarrow> double \<Rightarrow> double" where
  "fsub a b = fadd a (fneg b)"

definition fle :: "double \<Rightarrow> double \<Rightarrow> bool" where
  \<comment> \<open>\<open>a <= b\<close>: false when either side is a NaN\<close>
  "fle a b =
     (case (a, b) of
        (Finite x, Finite y) \<Rightarrow> x \<le> y
      | (NaN, _) \<Rightarrow> False
      | (_, NaN) \<Rightarrow> False
      | (NInf, _) \<Rightarrow> True
      | (_, PInf) \<Rightarrow> True
      | _ \<Rightarrow> False)"

definition round_half_away :: "rat \<Rightarrow> int" where
  "round_half_away x = (if 0 \<le> x then \<lfloor>x + 1 / 2\<rfloor> else \<lceil>x - 1 / 2\<rceil>)"

definition std_round :: "double \<Rightarrow> double" where
  \<comment> \<open>\<open>std::round\<close>: to the nearest integer, halfway cases away from zero\<close>
  "std_round a = (case a of Finite x \<Rightarrow> Finite (of_int (round_half_away x)) | _ \<Rightarrow> a)"

definition std_floor :: "double \<Rightarrow> double" where
  "std_floor a = (case a of Finite x \<Rightarrow> Finite (of_int \<lfloor>x\<rfloor>) | _ \<Rightarrow> a)"

definition std_ceil :: "double \<Rightarrow> double" where
  "std_ceil a = (case a of Finite x \<Rightarrow> Finite (of_int \<lceil>x\<rceil>) | _ \<Rightarrow> a)"

definition trunc :: "rat \<Rightarrow> int" where
  "trunc x = (if 0 \<le> x then \<lfloor>x\<rfloor> else \<lceil>x\<rceil>)"

definition double_to_int :: "double \<Rightarrow> int option" where
  \<comment> \<open>conversion to \<open>int\<close> truncates; undefined when the truncated value is not an
      \<open>int\<close>, and for infinities and NaN\<close>
  "double_to_int a =
     (case a of
        Finite x \<Rightarrow> if in_int_range (trunc x) then Some (trunc x) else None
      | _ \<Rightarrow> None)"

section \<open>\<open>std::format\<close> fields\<close>

definition dquote :: char where
  "dquote = CHR 0x22"

definition squote :: char where
  "squote = CHR 0x27"

definition digit_char :: "nat \<Rightarrow> char" where
  "digit_char d = ''0123456789'' ! d"

fun digits10 :: "nat \<Rightarrow> string" where
  "digits10 n = (if n < 10 then [digit_char n] else digits10 (n div 10) @ [digit_char (n mod 10)])"

declare digits10.simps [simp del]

definition pad_left :: "nat \<Rightarrow> char \<Rightarrow> string \<Rightarrow> string" where
  "pad_left w c s = replicate (w - length s) c @ s"

definition pad_right :: "nat \<Rightarrow> char \<Rightarrow> string \<Rightarrow> string" where
  "pad_right w c s = s @ replicate (w - length s) c"

definition fmt_int :: "int \<Rightarrow> string" where
  \<comment> \<open>\<open>{}\<close> on an \<open>int\<close>\<close>
  "fmt_int i = (if i < 0 then CHR ''-'' # digits10 (nat (- i)) else digits10 (nat i))"

definition fmt_int_w :: "nat \<Rightarrow> int \<Rightarrow> string" where
  \<comment> \<open>\<open>{:w}\<close> on an \<open>int\<close>: right-aligned in at least \<open>w\<close> characters\<close>
  "fmt_int_w w i = pad_left w CHR '' '' (fmt_int i)"

definition fmt_int_0w :: "nat \<Rightarrow> int \<Rightarrow> string" where
  \<comment> \<open>\<open>{:0w}\<close> on an \<open>int\<close>: zeros between the sign and the digits\<close>
  "fmt_int_0w w i =
     (if i < 0 then CHR ''-'' # pad_left (w - 1) CHR ''0'' (digits10 (nat (- i)))
      else pad_left w CHR ''0'' (digits10 (nat i)))"

definition fmt_char_w :: "nat \<Rightarrow> char \<Rightarrow> string" where
  \<comment> \<open>\<open>{:w}\<close> on a \<open>char\<close>: left-aligned, the default for characters\<close>
  "fmt_char_w w c = pad_right w CHR '' '' [c]"

definition fmt_str_right :: "nat \<Rightarrow> string \<Rightarrow> string" where
  \<comment> \<open>\<open>{: >w}\<close> on a string\<close>
  "fmt_str_right w s = pad_left w CHR '' '' s"

section \<open>The program\<close>

subsection \<open>\<open>struct Filter\<close>\<close>

record Filter =
  stops :: int
  name :: string

definition Filter_less :: "Filter \<Rightarrow> Filter \<Rightarrow> bool" where
  \<comment> \<open>\<open>operator<\<close> as \<open>operator<=>\<close> gives it: by \<open>stops\<close> alone\<close>
  "Filter_less a b \<longleftrightarrow> stops a < stops b"

definition Filter_plus :: "Filter \<Rightarrow> Filter \<Rightarrow> Filter option" where
  "Filter_plus a b =
     do { s \<leftarrow> int_add (stops a) (stops b);
          Some \<lparr> stops = s, name = name a @ '' '' @ name b \<rparr> }"

definition Filter_toString :: "Filter \<Rightarrow> string" where
  "Filter_toString f = fmt_str_right 7 (name f)"

subsection \<open>\<open>struct Shutter\<close>\<close>

record Shutter =
  time :: double

definition Shutter_fraction :: "int \<Rightarrow> Shutter" where
  \<comment> \<open>\<open>Shutter(initFraction)\<close>\<close>
  "Shutter_fraction initFraction = \<lparr> time = fdiv (Finite 1) (int_to_double initFraction) \<rparr>"

definition Shutter_seconds :: "int \<Rightarrow> int \<Rightarrow> Shutter" where
  \<comment> \<open>\<open>Shutter(initSeconds, initHundredsMiliseconds)\<close>\<close>
  "Shutter_seconds initSeconds initHundredsMiliseconds =
     \<lparr> time = fadd (int_to_double initSeconds)
                    (fdiv (int_to_double initHundredsMiliseconds) (Finite 10)) \<rparr>"

definition doubleToString :: "double \<Rightarrow> string option" where
  "doubleToString input =
     (if fle input (Finite (1 / 4)) then
        do { n \<leftarrow> double_to_int (std_round (fdiv (Finite 1) input));
             Some (fmt_int_w 7 n) }
      else if fle input (Finite 30) then
        do { second \<leftarrow> double_to_int (std_floor input);
             leftOver \<leftarrow> double_to_int
               (std_round (fmul (fsub input (int_to_double second)) (int_to_double 10)));
             Some (fmt_int_w 5 second @ [dquote] @ fmt_int leftOver) }
      else
        do { secondTotal \<leftarrow> double_to_int (std_ceil input);
             let minutesTotal = tdiv secondTotal 60;
                 seconds = tmod secondTotal 60
             in if minutesTotal \<le> 60 then
                  Some (fmt_int_w 2 minutesTotal @ [squote] @ '' '' @ fmt_int_0w 2 seconds @ [dquote])
                else
                  let hours = tdiv minutesTotal 60;
                      minutes = tmod minutesTotal 60
                  in if 99 < hours then Some (fmt_char_w 7 CHR ''x'')
                     else Some (fmt_int_w 2 hours @ ''h '' @ fmt_int_0w 2 minutes @ [squote]) })"

definition increasedShutterTime :: "Shutter \<Rightarrow> int \<Rightarrow> double option" where
  \<comment> \<open>\<open>time * (1 << stops)\<close>\<close>
  "increasedShutterTime sh n = map_option (\<lambda>k. fmul (time sh) (int_to_double k)) (shl_one n)"

definition toStringWithFilterStops :: "Shutter \<Rightarrow> int \<Rightarrow> string option" where
  "toStringWithFilterStops sh n = Option.bind (increasedShutterTime sh n) doubleToString"

definition Shutter_toString :: "Shutter \<Rightarrow> string option" where
  "Shutter_toString sh = doubleToString (time sh)"

subsection \<open>The tables\<close>

definition filters :: "Filter list" where
  "filters =
     [\<lparr> stops = 10, name = ''1k'' \<rparr>,
      \<lparr> stops = 6, name = ''64'' \<rparr>,
      \<lparr> stops = 3, name = ''8'' \<rparr>,
      \<lparr> stops = 2, name = ''4'' \<rparr>]"

definition shutters :: "Shutter list" where
  "shutters =
     [Shutter_fraction 4000, Shutter_fraction 3200, Shutter_fraction 2500,
      Shutter_fraction 2000, Shutter_fraction 1600, Shutter_fraction 1250,
      Shutter_fraction 1000, Shutter_fraction 800, Shutter_fraction 640,
      Shutter_fraction 500, Shutter_fraction 400, Shutter_fraction 320,
      Shutter_fraction 250, Shutter_fraction 200, Shutter_fraction 160,
      Shutter_fraction 125, Shutter_fraction 100, Shutter_fraction 80, Shutter_fraction 60,
      Shutter_fraction 50, Shutter_fraction 40, Shutter_fraction 30, Shutter_fraction 25,
      Shutter_fraction 20, Shutter_fraction 15, Shutter_fraction 13, Shutter_fraction 10,
      Shutter_fraction 8, Shutter_fraction 6, Shutter_fraction 5, Shutter_fraction 4,
      Shutter_seconds 0 3, Shutter_seconds 0 4, Shutter_seconds 0 5, Shutter_seconds 0 6,
      Shutter_seconds 0 8, Shutter_seconds 1 0, Shutter_seconds 1 3, Shutter_seconds 1 6,
      Shutter_seconds 2 0, Shutter_seconds 2 5, Shutter_seconds 3 2, Shutter_seconds 4 0,
      Shutter_seconds 5 0, Shutter_seconds 6 0, Shutter_seconds 8 0, Shutter_seconds 10 0,
      Shutter_seconds 13 0, Shutter_seconds 15 0, Shutter_seconds 20 0,
      Shutter_seconds 25 0, Shutter_seconds 30 0]"

subsection \<open>Filling and sorting \<open>combinedFilters\<close>\<close>

text \<open>
  \<open>combinedFilters\<close> is a global vector; each function takes its contents and returns
  the new contents. \<open>None\<close> is the undefined behaviour of an overflowing
  \<open>operator+\<close>.
\<close>

definition push_back :: "'a list \<Rightarrow> 'a \<Rightarrow> 'a list" where
  "push_back v x = v @ [x]"

definition populateFiltersWithHandPickedCombinations :: "Filter list \<Rightarrow> Filter list option" where
  "populateFiltersWithHandPickedCombinations combinedFilters =
     do { a \<leftarrow> Filter_plus (filters ! 0) (filters ! 1);
          b \<leftarrow> Filter_plus a (filters ! 3);
          c \<leftarrow> Filter_plus (filters ! 0) (filters ! 2);
          d \<leftarrow> Filter_plus c (filters ! 3);
          Some (push_back (push_back combinedFilters b) d) }"

definition pair_indices :: "(nat \<times> nat) list" where
  \<comment> \<open>the index pairs the two nested loops visit, in their order\<close>
  "pair_indices = concat (map (\<lambda>i. map (\<lambda>j. (i, j)) [i + 1 ..< 4]) [0 ..< 4 - 1])"

fun push_pairs :: "(nat \<times> nat) list \<Rightarrow> Filter list \<Rightarrow> Filter list option" where
  "push_pairs [] combinedFilters = Some combinedFilters"
| "push_pairs ((i, j) # rest) combinedFilters =
     do { f \<leftarrow> Filter_plus (filters ! i) (filters ! j);
          push_pairs rest (push_back combinedFilters f) }"

definition populateFiltersWithGeneratedCombinations :: "Filter list \<Rightarrow> Filter list option" where
  "populateFiltersWithGeneratedCombinations combinedFilters =
     push_pairs pair_indices (foldl push_back combinedFilters filters)"

definition sortFilters :: "Filter list \<Rightarrow> Filter list \<Rightarrow> bool" where
  \<comment> \<open>\<open>std::sort\<close> with \<open>operator<\<close>: \<open>sortFilters before after\<close> holds when \<open>after\<close>
      is a result the call may leave, that is a rearrangement of \<open>before\<close> in which no
      element is less than an earlier one. \<open>std::sort\<close> does not say in which order it
      leaves elements that compare equivalent.\<close>
  "sortFilters before after \<longleftrightarrow>
     mset after = mset before \<and> sorted_wrt (\<lambda>a b. \<not> Filter_less b a) after"

definition populated :: "Filter list option" where
  \<comment> \<open>\<open>combinedFilters\<close> after the two populating calls of \<open>main\<close>\<close>
  "populated =
     populateFiltersWithGeneratedCombinations [] \<bind> populateFiltersWithHandPickedCombinations"

subsection \<open>The CSV table\<close>

datatype csv_call = DisplayCsvHeader | DisplayCsvRow Shutter

fun displayCsvTable_loop :: "int \<Rightarrow> int \<Rightarrow> Shutter list \<Rightarrow> csv_call list option" where
  \<comment> \<open>the loop from row \<open>i\<close> on, over the rows still to print; \<open>i % middle\<close> is
      undefined for \<open>middle = 0\<close>\<close>
  "displayCsvTable_loop middle i [] = Some []"
| "displayCsvTable_loop middle i (shutter # rest) =
     (if middle = 0 then None
      else do { calls \<leftarrow> displayCsvTable_loop middle (i + 1) rest;
                Some ((if tmod i middle = 0 then [DisplayCsvHeader] else [])
                      @ DisplayCsvRow shutter # calls) })"

definition displayCsvTable_of :: "Shutter list \<Rightarrow> csv_call list option" where
  \<comment> \<open>\<open>displayCsvTable\<close> with the table it walks as a parameter: the calls of
      \<open>displayCsvHeader\<close> and \<open>displayCsvRow\<close> it makes, in order\<close>
  "displayCsvTable_of table =
     (let shuttersCount = int (length table);
          middle = tdiv shuttersCount 2
      in displayCsvTable_loop middle 0 table)"

definition displayCsvTable :: "csv_call list option" where
  "displayCsvTable = displayCsvTable_of shutters"

section \<open>Properties of the rounding\<close>

lemma pow2_powi: "pow2 e = 2 powi e"
  by (auto simp: pow2_def power_int_def inverse_eq_divide power_one_over)

lemma pow2_pos: "0 < pow2 e"
  by (simp add: pow2_powi)

lemma pow2_add: "pow2 (a + b) = pow2 a * pow2 b"
  by (simp add: pow2_powi power_int_add)

lemma pow2_mono: "a \<le> b \<Longrightarrow> pow2 a \<le> pow2 b"
  by (simp add: pow2_powi power_int_increasing)

lemma pow2_strict_mono: "a < b \<Longrightarrow> pow2 a < pow2 b"
  by (simp add: pow2_powi power_int_strict_increasing)

lemma pow2_nat: "pow2 (int n) = 2 ^ n"
  by (simp add: pow2_def)

lemma pow2_neg_nat: "pow2 (- int n) = 1 / 2 ^ n"
  by (cases n) (simp_all add: pow2_def nat_add_distrib)

lemma bitlength_upper: "n < 2 ^ bitlength n"
proof (induction n rule: bitlength.induct)
  case (1 n)
  show ?case
  proof (cases "n = 0")
    case True
    then show ?thesis by (simp add: bitlength.simps)
  next
    case False
    with 1 have "n div 2 < 2 ^ bitlength (n div 2)" by simp
    then have "n < 2 * 2 ^ bitlength (n div 2)" by linarith
    with False show ?thesis by (subst bitlength.simps) simp
  qed
qed

lemma bitlength_lower: "0 < n \<Longrightarrow> 2 ^ (bitlength n - 1) \<le> n"
proof (induction n rule: bitlength.induct)
  case (1 n)
  show ?case
  proof (cases "n div 2 = 0")
    case True
    with 1 have "n = 1" by linarith
    then show ?thesis by (simp add: bitlength.simps)
  next
    case False
    with 1 have ih: "2 ^ (bitlength (n div 2) - 1) \<le> n div 2" by simp
    from False have pos: "0 < bitlength (n div 2)" by (subst bitlength.simps) simp
    have "bitlength n = Suc (bitlength (n div 2))" using 1(2) by (subst bitlength.simps) simp
    then have "2 ^ (bitlength n - 1) = 2 * 2 ^ (bitlength (n div 2) - 1)"
      using pos by (cases "bitlength (n div 2)") simp_all
    also have "\<dots> \<le> 2 * (n div 2)" using ih by simp
    also have "\<dots> \<le> n" by simp
    finally show ?thesis .
  qed
qed

lemma bitlength_pos: "0 < n \<Longrightarrow> 0 < bitlength n"
  by (subst bitlength.simps) simp

lemma binade_bounds:
  assumes "0 < q"
  shows "pow2 (binade q) \<le> q" and "q < pow2 (binade q + 1)"
proof -
  show "pow2 (binade q) \<le> q"
  proof (cases "1 \<le> q")
    case True
    define n where "n = nat \<lfloor>q\<rfloor>"
    have npos: "0 < n" using True by (simp add: n_def)
    have "binade q = int (bitlength n - 1)"
      using True bitlength_pos [OF npos] by (simp add: binade_def n_def)
    then have "pow2 (binade q) = 2 ^ (bitlength n - 1)" by (simp add: pow2_nat)
    also have "\<dots> \<le> of_nat n" using bitlength_lower [OF npos]
      by (metis of_nat_le_iff of_nat_numeral of_nat_power)
    also have "\<dots> \<le> q" using True by (simp add: n_def)
    finally show ?thesis .
  next
    case False
    define c where "c = \<lceil>1 / q\<rceil>"
    define n where "n = nat (c - 1)"
    have r: "1 < 1 / q" using False assms by simp
    then have c2: "2 \<le> c" unfolding c_def by linarith
    have "binade q = - int (bitlength n)" using False by (simp add: binade_def n_def c_def)
    then have eq: "pow2 (binade q) = 1 / 2 ^ bitlength n" by (simp only: pow2_neg_nat)
    have "1 / q \<le> 2 ^ bitlength n"
    proof -
      have "n < 2 ^ bitlength n" by (rule bitlength_upper)
      then have "Suc n \<le> 2 ^ bitlength n" by simp
      then have le: "(of_nat (Suc n) :: rat) \<le> 2 ^ bitlength n"
        by (metis of_nat_le_iff of_nat_numeral of_nat_power)
      have "1 / q \<le> of_int c" unfolding c_def by linarith
      also have "(of_int c :: rat) = of_nat (Suc n)" using c2 by (simp add: n_def)
      also note le
      finally show ?thesis .
    qed
    then have "1 / 2 ^ bitlength n \<le> q" using assms by (simp add: field_simps)
    with eq show ?thesis by simp
  qed
  show "q < pow2 (binade q + 1)"
  proof (cases "1 \<le> q")
    case True
    define n where "n = nat \<lfloor>q\<rfloor>"
    have npos: "0 < n" using True by (simp add: n_def)
    have "binade q + 1 = int (bitlength n)"
      using True by (simp add: binade_def n_def)
    then have "pow2 (binade q + 1) = 2 ^ bitlength n" by (simp add: pow2_nat)
    moreover have "q < 2 ^ bitlength n"
    proof -
      have "n < 2 ^ bitlength n" by (rule bitlength_upper)
      then have "Suc n \<le> 2 ^ bitlength n" by simp
      then have le: "(of_nat (Suc n) :: rat) \<le> 2 ^ bitlength n"
        by (metis of_nat_le_iff of_nat_numeral of_nat_power)
      have "q < of_int \<lfloor>q\<rfloor> + 1" by linarith
      also have "(of_int \<lfloor>q\<rfloor> + 1 :: rat) = of_nat (Suc n)" using True by (simp add: n_def)
      also note le
      finally show ?thesis .
    qed
    ultimately show ?thesis by simp
  next
    case False
    define c where "c = \<lceil>1 / q\<rceil>"
    define n where "n = nat (c - 1)"
    have r: "1 < 1 / q" using False assms by simp
    then have c2: "2 \<le> c" unfolding c_def by linarith
    then have npos: "0 < n" by (simp add: n_def)
    have "binade q + 1 = - int (bitlength n - 1)"
      using False bitlength_pos [OF npos] by (simp add: binade_def n_def c_def)
    then have eq: "pow2 (binade q + 1) = 1 / 2 ^ (bitlength n - 1)"
      by (simp only: pow2_neg_nat)
    have "2 ^ (bitlength n - 1) < 1 / q"
    proof -
      have "(2::rat) ^ (bitlength n - 1) \<le> of_nat n" using bitlength_lower [OF npos]
        by (metis of_nat_le_iff of_nat_numeral of_nat_power)
      also have "(of_nat n :: rat) = of_int c - 1" using c2 by (simp add: n_def)
      also have "of_int c - 1 < 1 / q" unfolding c_def by linarith
      finally show ?thesis .
    qed
    then have "q < 1 / 2 ^ (bitlength n - 1)" using assms by (simp add: field_simps)
    with eq show ?thesis by simp
  qed
qed

lemma binade_unique:
  assumes "pow2 e \<le> q" and "q < pow2 (e + 1)"
  shows "binade q = e"
proof -
  have qpos: "0 < q" using assms(1) pow2_pos [of e] by linarith
  note b = binade_bounds [OF qpos]
  have "\<not> binade q < e"
  proof
    assume "binade q < e"
    then have "pow2 (binade q + 1) \<le> pow2 e" by (intro pow2_mono) simp
    with b(2) assms(1) show False by linarith
  qed
  moreover have "\<not> e < binade q"
  proof
    assume "e < binade q"
    then have "pow2 (e + 1) \<le> pow2 (binade q)" by (intro pow2_mono) simp
    with b(1) assms(2) show False by linarith
  qed
  ultimately show ?thesis by linarith
qed

lemma binade_scale:
  assumes "0 < q"
  shows "binade (q * 2 ^ k) = binade q + int k"
proof (rule binade_unique)
  note b = binade_bounds [OF assms]
  have p: "pow2 (int k) = 2 ^ k" by (rule pow2_nat)
  show "pow2 (binade q + int k) \<le> q * 2 ^ k"
    using b(1) by (simp add: pow2_add p)
  have "pow2 (binade q + int k + 1) = pow2 (binade q + 1) * 2 ^ k"
    using pow2_add [of "binade q + 1" "int k"] by (simp add: p add.commute add.left_commute)
  then show "q * 2 ^ k < pow2 (binade q + int k + 1)"
    using b(2) by simp
qed

lemma round_half_even_of_int: "round_half_even (of_int k) = k"
  by (simp add: round_half_even_def)

lemma round_half_even_err: "\<bar>of_int (round_half_even x) - x\<bar> \<le> 1 / 2"
proof -
  have f: "of_int \<lfloor>x\<rfloor> \<le> x" "x < of_int \<lfloor>x\<rfloor> + 1" by linarith+
  show ?thesis
    unfolding round_half_even_def Let_def using f
    by (auto simp: abs_le_iff)
qed


lemma round_to_double_0: "round_to_double 0 = Finite 0"
  by (simp add: round_to_double_def)

lemma binade_le:
  assumes "0 < q" and "q \<le> pow2 e"
  shows "binade q \<le> e"
proof (rule ccontr)
  assume "\<not> binade q \<le> e"
  then have "pow2 (e + 1) \<le> pow2 (binade q)" by (intro pow2_mono) simp
  moreover have "pow2 e < pow2 (e + 1)" by (intro pow2_strict_mono) simp
  ultimately show False using binade_bounds(1) [OF assms(1)] assms(2) by linarith
qed

lemma round_to_double_small:
  assumes "q \<noteq> 0" and "\<bar>q\<bar> \<le> 2 ^ 64"
  shows "round_to_double q =
         Finite (of_int (round_half_even (q / pow2 (ulp_exp q))) * pow2 (ulp_exp q))"
proof -
  define u where "u = pow2 (ulp_exp q)"
  define r where "r = of_int (round_half_even (q / u)) * u"
  have upos: "0 < u" by (simp add: u_def pow2_pos)
  have "binade \<bar>q\<bar> \<le> 64"
    using assms pow2_nat [of 64] by (intro binade_le) simp_all
  then have "ulp_exp q \<le> 12" by (simp add: ulp_exp_def)
  then have "u \<le> pow2 12" unfolding u_def by (rule pow2_mono)
  then have u12: "u \<le> 2 ^ 12" using pow2_nat [of 12] by simp
  have "r - q = (of_int (round_half_even (q / u)) - q / u) * u"
    using upos by (simp add: r_def field_simps)
  then have "\<bar>r - q\<bar> = \<bar>of_int (round_half_even (q / u)) - q / u\<bar> * u"
    using upos by (simp add: abs_mult)
  also have "\<dots> \<le> 1 / 2 * u"
    using round_half_even_err [of "q / u"] upos by (intro mult_right_mono) simp_all
  finally have "\<bar>r\<bar> \<le> \<bar>q\<bar> + u" using upos by linarith
  with assms(2) u12 have "\<bar>r\<bar> \<le> 2 ^ 64 + 2 ^ 12" by linarith
  also have "\<dots> < (2::rat) ^ 65" by simp
  also have "\<dots> < (2::rat) ^ 1024" by (rule power_strict_increasing) simp_all
  finally have "\<bar>r\<bar> < 2 ^ 1024" .
  then have "\<not> 2 ^ 1024 \<le> r" "\<not> r \<le> - (2 ^ 1024)" by linarith+
  then show ?thesis using assms(1) by (simp add: round_to_double_def Let_def u_def r_def)
qed

lemma tmod_nonneg: "0 \<le> a \<Longrightarrow> 0 < b \<Longrightarrow> tmod a b = a mod b"
  by (simp add: tmod_def tdiv_def sgn_if minus_mult_div_eq_mod)

lemma tdiv_nonneg: "0 \<le> a \<Longrightarrow> 0 < b \<Longrightarrow> tdiv a b = a div b"
  by (simp add: tdiv_def sgn_if)

section \<open>Evaluation\<close>

text \<open>
  Rules that let the simplifier run the definitions on numerals: floors and ceilings of
  rational numerals, \<open>replicate\<close> on a numeral, the recursive functions unfolded on
  numerals only, and rounding below \<open>2 ^ 64\<close>, where it cannot overflow.
\<close>

lemma floor_rat_numeral: "\<lfloor>numeral a / numeral b :: rat\<rfloor> = numeral a div numeral b"
  using floor_divide_of_int_eq [of "numeral a" "numeral b", where 'a = rat] by simp

lemma floor_rat_neg_numeral:
  "\<lfloor>- (numeral a / numeral b) :: rat\<rfloor> = - numeral a div numeral b"
  using floor_divide_of_int_eq [of "- numeral a" "numeral b", where 'a = rat] by simp

lemma floor_rat_one_numeral: "\<lfloor>1 / numeral b :: rat\<rfloor> = 1 div numeral b"
  using floor_divide_of_int_eq [of 1 "numeral b", where 'a = rat] by simp

lemma floor_rat_neg_one_numeral: "\<lfloor>- (1 / numeral b) :: rat\<rfloor> = - 1 div numeral b"
  using floor_divide_of_int_eq [of "- 1" "numeral b", where 'a = rat] by simp

lemma ceiling_rat_numeral: "\<lceil>numeral a / numeral b :: rat\<rceil> = - (- numeral a div numeral b)"
  by (simp add: ceiling_def floor_rat_neg_numeral)

lemma ceiling_rat_neg_numeral:
  "\<lceil>- (numeral a / numeral b) :: rat\<rceil> = - (numeral a div numeral b)"
  by (simp add: ceiling_def floor_rat_numeral)

lemma ceiling_rat_one_numeral: "\<lceil>1 / numeral b :: rat\<rceil> = - (- 1 div numeral b)"
  by (simp add: ceiling_def floor_rat_neg_one_numeral)

lemma ceiling_rat_neg_one_numeral: "\<lceil>- (1 / numeral b) :: rat\<rceil> = - (1 div numeral b)"
  by (simp add: ceiling_def floor_rat_one_numeral)

lemma replicate_numeral: "replicate (numeral n) x = x # replicate (pred_numeral n) x"
  by (subst numeral_eq_Suc) simp

lemma bitlength_0: "bitlength 0 = 0"
  by (simp add: bitlength.simps)

lemma bitlength_1: "bitlength (Suc 0) = 1"
  by (simp add: bitlength.simps)

lemma bitlength_numeral: "bitlength (numeral k) = Suc (bitlength (numeral k div 2))"
  by (subst bitlength.simps) simp

lemma digits10_0: "digits10 0 = ''0''"
  by (simp add: digits10.simps digit_char_def)

lemma digits10_1: "digits10 (Suc 0) = ''1''"
  by (simp add: digits10.simps digit_char_def)

lemma digits10_numeral:
  "digits10 (numeral k) =
     (if numeral k < (10::nat) then [digit_char (numeral k)]
      else digits10 (numeral k div 10) @ [digit_char (numeral k mod 10)])"
  by (rule digits10.simps)

lemmas rat_eval =
  floor_rat_numeral floor_rat_neg_numeral floor_rat_one_numeral floor_rat_neg_one_numeral
  ceiling_rat_numeral ceiling_rat_neg_numeral ceiling_rat_one_numeral
  ceiling_rat_neg_one_numeral

lemmas int_eval =
  INT_MIN_def INT_MAX_def in_int_range_def int_add_def tdiv_def tmod_def shl_one_def

lemmas double_eval =
  rat_eval bitlength_0 bitlength_1 bitlength_numeral pow2_def binade_def ulp_exp_def
  round_half_even_def round_to_double_0 round_to_double_small dsign_def signed_inf_def
  int_to_double_def fmul_def fdiv_def fadd_def fneg_def fsub_def fle_def round_half_away_def
  std_round_def std_floor_def std_ceil_def trunc_def double_to_int_def Let_def

lemmas format_eval =
  replicate_numeral dquote_def squote_def digit_char_def digits10_0 digits10_1
  digits10_numeral pad_left_def pad_right_def fmt_int_def fmt_int_w_def fmt_int_0w_def
  fmt_char_w_def fmt_str_right_def

lemmas shutter_eval =
  Shutter_fraction_def Shutter_seconds_def doubleToString_def increasedShutterTime_def
  toStringWithFilterStops_def Shutter_toString_def

lemmas all_eval = int_eval double_eval format_eval shutter_eval

section \<open>Exact doubling, bounds of the rounding and widths of the fields\<close>

lemma ulp_exp_scale:
  assumes "q \<noteq> 0"
  shows "ulp_exp (q * 2 ^ k) \<le> ulp_exp q + int k"
proof -
  have "\<bar>q * 2 ^ k\<bar> = \<bar>q\<bar> * 2 ^ k" by (simp add: abs_mult)
  then have "binade \<bar>q * 2 ^ k\<bar> = binade \<bar>q\<bar> + int k"
    using assms by (simp add: binade_scale)
  then show ?thesis by (simp add: ulp_exp_def)
qed

lemma on_grid_scale:
  assumes "q / pow2 e = of_int a" and "e' \<le> e + int k"
  shows "\<exists>b. q * 2 ^ k / pow2 e' = of_int b"
proof -
  define d where "d = nat (e + int k - e')"
  have "pow2 (e + int k) = pow2 e' * pow2 (int d)"
    using assms(2) pow2_add [of e' "int d"] by (simp add: d_def)
  then have "pow2 e * 2 ^ k = pow2 e' * 2 ^ d"
    by (simp add: pow2_add pow2_nat)
  moreover have "q = of_int a * pow2 e"
    using assms(1) pow2_pos [of e] by (simp add: field_simps)
  ultimately have "q * 2 ^ k = of_int a * 2 ^ d * pow2 e'"
    by (simp add: mult.assoc mult.commute)
  then have "q * 2 ^ k / pow2 e' = of_int (a * 2 ^ d)"
    using pow2_pos [of e'] by simp
  then show ?thesis ..
qed

lemma is_double_on_grid:
  "is_double q \<longleftrightarrow> q = 0 \<or> (\<bar>q\<bar> < 2 ^ 1024 \<and> (\<exists>a. q / pow2 (ulp_exp q) = of_int a))"
  by (simp add: is_double_def)

lemma round_to_double_exact:
  assumes "is_double q"
  shows "round_to_double q = Finite q"
proof (cases "q = 0")
  case True
  then show ?thesis by (simp add: round_to_double_0)
next
  case False
  with assms obtain a where b: "\<bar>q\<bar> < 2 ^ 1024" and g: "q / pow2 (ulp_exp q) = of_int a"
    by (auto simp: is_double_on_grid)
  have "round_half_even (q / pow2 (ulp_exp q)) = a"
    by (simp only: g round_half_even_of_int)
  then have "of_int (round_half_even (q / pow2 (ulp_exp q))) * pow2 (ulp_exp q)
             = q / pow2 (ulp_exp q) * pow2 (ulp_exp q)"
    by (simp only: g)
  also have "\<dots> = q" using pow2_pos [of "ulp_exp q"] by simp
  finally have "of_int (round_half_even (q / pow2 (ulp_exp q))) * pow2 (ulp_exp q) = q" .
  moreover from b have "\<not> 2 ^ 1024 \<le> q" "\<not> q \<le> - (2 ^ 1024)" by linarith+
  ultimately show ?thesis using False by (simp add: round_to_double_def Let_def)
qed

lemma is_double_scale:
  assumes "is_double q" and "\<bar>q * 2 ^ k\<bar> < 2 ^ 1024"
  shows "is_double (q * 2 ^ k)"
proof (cases "q = 0")
  case True
  then show ?thesis by (simp add: is_double_def)
next
  case False
  with assms(1) obtain a where "q / pow2 (ulp_exp q) = of_int a"
    by (auto simp: is_double_on_grid)
  then obtain b where "q * 2 ^ k / pow2 (ulp_exp (q * 2 ^ k)) = of_int b"
    using on_grid_scale ulp_exp_scale [OF False] by blast
  with assms(2) show ?thesis unfolding is_double_on_grid by blast
qed

lemma fmul_power_of_two:
  assumes "is_double q" and "\<bar>q * 2 ^ k\<bar> < 2 ^ 1024"
  shows "fmul (Finite q) (int_to_double (2 ^ k)) = Finite (q * 2 ^ k)"
  using round_to_double_exact [OF is_double_scale [OF assms]]
  by (simp add: fmul_def int_to_double_def)

lemma shl_one_power: "0 \<le> n \<Longrightarrow> n \<le> 30 \<Longrightarrow> shl_one n = Some (2 ^ nat n)"
  by (simp add: shl_one_def)

lemma is_double_small:
  assumes "\<bar>q\<bar> \<le> 2 ^ 64" and "of_int \<lfloor>q / pow2 (ulp_exp q)\<rfloor> = q / pow2 (ulp_exp q)"
  shows "is_double q"
proof -
  have "\<bar>q\<bar> < 2 ^ 65" using assms(1) by simp
  also have "(2::rat) ^ 65 < 2 ^ 1024" by (rule power_strict_increasing) simp_all
  finally show ?thesis using assms(2) unfolding is_double_def by blast
qed

lemma toStringWithFilterStops_exact:
  assumes "time d = Finite q" and "is_double q" and "\<bar>q\<bar> \<le> 2 ^ 64"
    and "0 \<le> n" and "n \<le> 30"
  shows "toStringWithFilterStops d n = doubleToString (Finite (q * 2 ^ nat n))"
proof -
  have "(2::rat) ^ nat n \<le> 2 ^ 30" using assms(4,5) by (intro power_increasing) simp_all
  then have "\<bar>q\<bar> * 2 ^ nat n \<le> 2 ^ 64 * 2 ^ 30"
    using assms(3) by (intro mult_mono) simp_all
  also have "\<dots> < (2::rat) ^ 1024" by (simp add: power_add [symmetric])
  finally have "\<bar>q * 2 ^ nat n\<bar> < 2 ^ 1024" by (simp add: abs_mult)
  from fmul_power_of_two [OF assms(2) this] assms(1,4,5) show ?thesis
    by (simp add: toStringWithFilterStops_def increasedShutterTime_def shl_one_power)
qed


lemma round_half_even_le: "x \<le> of_int c \<Longrightarrow> round_half_even x \<le> c"
proof -
  assume a: "x \<le> of_int c"
  then have f: "\<lfloor>x\<rfloor> \<le> c" by (simp add: floor_le_iff)
  have "\<lfloor>x\<rfloor> + 1 \<le> c" if "of_int \<lfloor>x\<rfloor> < x"
  proof -
    from that a have "(of_int \<lfloor>x\<rfloor> :: rat) < of_int c" by linarith
    then show ?thesis by simp
  qed
  with f show ?thesis unfolding round_half_even_def Let_def by auto
qed

lemma round_half_even_ge: "of_int c \<le> x \<Longrightarrow> c \<le> round_half_even x"
proof -
  assume "of_int c \<le> x"
  then have "c \<le> \<lfloor>x\<rfloor>" by (simp add: le_floor_iff)
  then show ?thesis unfolding round_half_even_def Let_def by auto
qed

lemma binade_less:
  assumes "0 < q" and "q < pow2 (e + 1)"
  shows "binade q \<le> e"
proof (rule ccontr)
  assume "\<not> binade q \<le> e"
  then have "pow2 (e + 1) \<le> pow2 (binade q)" by (intro pow2_mono) simp
  then show False using binade_bounds(1) [OF assms(1)] assms(2) by linarith
qed

lemma round_to_double_upper:
  assumes "0 < y" and "y \<le> of_int a * pow2 j" and "y < pow2 (j + 53)" and "- 1074 \<le> j"
    and "y \<le> 2 ^ 64"
  shows "\<exists>r. round_to_double y = Finite r \<and> 0 \<le> r \<and> r \<le> of_int a * pow2 j"
proof -
  define e where "e = ulp_exp y"
  define r where "r = of_int (round_half_even (y / pow2 e)) * pow2 e"
  have "binade \<bar>y\<bar> \<le> j + 52" using assms(1,3) by (intro binade_less) (simp_all add: add.commute)
  with assms(4) have ej: "e \<le> j" by (simp add: e_def ulp_exp_def)
  define d where "d = nat (j - e)"
  have "pow2 j = pow2 (int d) * pow2 e"
    using ej pow2_add [of "int d" e] by (simp add: d_def)
  then have c: "of_int a * pow2 j = of_int (a * 2 ^ d) * pow2 e"
    by (simp add: pow2_nat)
  have "y / pow2 e \<le> of_int (a * 2 ^ d)"
    using assms(2) pow2_pos [of e] unfolding c by (simp add: field_simps)
  then have "round_half_even (y / pow2 e) \<le> a * 2 ^ d" by (rule round_half_even_le)
  then have "(of_int (round_half_even (y / pow2 e)) :: rat) \<le> of_int (a * 2 ^ d)"
    by (simp only: of_int_le_iff)
  then have upper: "r \<le> of_int a * pow2 j"
    unfolding c r_def using pow2_pos [of e] by (intro mult_right_mono) simp_all
  have "of_int 0 \<le> y / pow2 e" using assms(1) pow2_pos [of e] by simp
  then have "0 \<le> round_half_even (y / pow2 e)" by (rule round_half_even_ge)
  then have lower: "0 \<le> r" unfolding r_def using pow2_pos [of e] by simp
  have "round_to_double y = Finite r"
    using assms(1,5) by (simp add: round_to_double_small r_def e_def)
  with upper lower show ?thesis by blast
qed

lemma digits10_length_pos: "0 < length (digits10 n)"
  by (subst digits10.simps) simp

lemma digits10_length:
  "0 < k \<Longrightarrow> n < 10 ^ k \<Longrightarrow> length (digits10 n) \<le> k"
proof (induction n arbitrary: k rule: digits10.induct)
  case (1 n)
  show ?case
  proof (cases "n < 10")
    case True
    with 1(2) show ?thesis by (subst digits10.simps) simp
  next
    case False
    have k: "1 < k"
    proof (rule ccontr)
      assume "\<not> 1 < k"
      with 1(2) have "k = 1" by simp
      with 1(3) False show False by simp
    qed
    then obtain k' where k': "k = Suc k'" "0 < k'" by (cases k) auto
    with 1(3) have "n div 10 < 10 ^ k'" by (simp add: less_mult_imp_div_less mult.commute)
    with 1(1) [OF False k'(2)] have "length (digits10 (n div 10)) \<le> k'" by simp
    with False k' show ?thesis by (subst digits10.simps) simp
  qed
qed

lemma length_pad_left: "length (pad_left w c s) = max w (length s)"
  by (simp add: pad_left_def)

lemma length_fmt_int_nonneg:
  "0 \<le> i \<Longrightarrow> 0 < k \<Longrightarrow> i < 10 ^ k \<Longrightarrow> length (fmt_int i) \<le> k \<and> 0 < length (fmt_int i)"
  using digits10_length [of k "nat i"] digits10_length_pos [of "nat i"]
  by (simp add: fmt_int_def nat_less_iff)

lemma length_fmt_int_w:
  "0 \<le> i \<Longrightarrow> 0 < k \<Longrightarrow> i < 10 ^ k \<Longrightarrow> length (fmt_int_w k i) = k"
  using length_fmt_int_nonneg [of i k] by (simp add: fmt_int_w_def length_pad_left)

lemma length_fmt_int_0w:
  "0 \<le> i \<Longrightarrow> 0 < k \<Longrightarrow> i < 10 ^ k \<Longrightarrow> length (fmt_int_0w k i) = k"
  using digits10_length [of k "nat i"]
  by (simp add: fmt_int_0w_def length_pad_left nat_less_iff)

lemma length_fmt_int_digit: "0 \<le> i \<Longrightarrow> i < 10 \<Longrightarrow> length (fmt_int i) = 1"
  using length_fmt_int_nonneg [of i 1] by (cases "fmt_int i") simp_all


lemma trunc_of_int: "trunc (of_int k) = k"
  by (simp add: trunc_def)

lemma double_to_int_of_int:
  "in_int_range k \<Longrightarrow> double_to_int (Finite (of_int k)) = Some k"
  by (simp add: double_to_int_def trunc_of_int)

lemma doubleToString_bulb:
  assumes "30 < x" and "x \<le> 2147483647" and "st = \<lceil>x\<rceil>"
  shows "doubleToString (Finite x) =
           (if st div 60 \<le> 60 then
              Some (fmt_int_w 2 (st div 60) @ [squote] @ '' ''
                    @ fmt_int_0w 2 (st mod 60) @ [dquote])
            else if 99 < st div 60 div 60 then Some (fmt_char_w 7 CHR ''x'')
            else Some (fmt_int_w 2 (st div 60 div 60) @ ''h ''
                       @ fmt_int_0w 2 (st div 60 mod 60) @ [squote]))"
proof -
  have lo: "31 \<le> st" unfolding assms(3) using assms(1) by linarith
  have hi: "st \<le> 2147483647" unfolding assms(3) using assms(2) by (simp add: ceiling_le_iff)
  have c: "double_to_int (std_ceil (Finite x)) = Some st"
    using lo hi
    by (simp add: std_ceil_def double_to_int_of_int in_int_range_def INT_MIN_def INT_MAX_def
        assms(3) [symmetric])
  have d: "tdiv st 60 = st div 60" "tmod st 60 = st mod 60"
    using lo by (simp_all add: tdiv_nonneg tmod_nonneg)
  have m: "0 \<le> st div 60" using lo by simp
  have e: "tdiv (st div 60) 60 = st div 60 div 60" "tmod (st div 60) 60 = st div 60 mod 60"
    using m by (simp_all add: tdiv_nonneg tmod_nonneg)
  have f: "\<not> fle (Finite x) (Finite (1 / 4))" "\<not> fle (Finite x) (Finite 30)"
    using assms(1) by (simp_all add: fle_def)
  show ?thesis
    unfolding doubleToString_def by (simp add: f c d e Let_def)
qed

lemma doubleToString_bulb_width:
  assumes "30 < x" and "x \<le> 2147483647"
  shows "\<exists>s. doubleToString (Finite x) = Some s \<and> length s = 7"
proof -
  define st where "st = \<lceil>x\<rceil>"
  have lo: "31 \<le> st" unfolding st_def using assms(1) by linarith
  then have m: "0 \<le> st div 60" by simp
  have s: "0 \<le> st mod 60" "st mod 60 < 10 ^ 2" by simp_all
  have n: "0 \<le> st div 60 mod 60" "st div 60 mod 60 < 10 ^ 2" by simp_all
  have h: "0 \<le> st div 60 div 60" using m by simp
  show ?thesis
    unfolding doubleToString_bulb [OF assms st_def]
    using m h by (simp add: length_fmt_int_w length_fmt_int_0w [OF s(1) _ s(2)]
        length_fmt_int_0w [OF n(1) _ n(2)] fmt_char_w_def pad_right_def)
qed

lemma doubleToString_fraction_width:
  assumes "1 / 2 ^ 23 \<le> x" and "x \<le> 1 / 4"
  shows "\<exists>s. doubleToString (Finite x) = Some s \<and> length s = 7"
proof -
  have xpos: "0 < x" using assms(1) by (rule less_le_trans [rotated]) simp
  have y: "0 < 1 / x" "1 / x \<le> of_int 1 * pow2 23"
    using xpos assms(1) pow2_nat [of 23] by (simp_all add: field_simps)
  have "1 / x < pow2 (23 + 53)"
    using y(2) pow2_strict_mono [of 23 "23 + 53"] by simp
  moreover have "1 / x \<le> 2 ^ 64"
    using y(2) pow2_mono [of 23 64] pow2_nat [of 64] by simp
  ultimately obtain r where r: "round_to_double (1 / x) = Finite r" "0 \<le> r" "r \<le> of_int 1 * pow2 23"
    using round_to_double_upper [OF y(1) y(2)] by auto
  define n where "n = round_half_away r"
  have r23: "r \<le> 8388608" using r(3) pow2_nat [of 23] by simp
  have n0: "0 \<le> n" using r(2) by (simp add: n_def round_half_away_def)
  have n1: "n \<le> 8388608" using r(2) r23 by (simp add: n_def round_half_away_def floor_le_iff)
  have "fdiv (Finite 1) (Finite x) = Finite r" using xpos r(1) by (simp add: fdiv_def)
  then have "double_to_int (std_round (fdiv (Finite 1) (Finite x))) = Some n"
    using n0 n1 by (simp add: std_round_def n_def [symmetric] double_to_int_of_int
        in_int_range_def INT_MIN_def INT_MAX_def)
  then have "doubleToString (Finite x) = Some (fmt_int_w 7 n)"
    using assms(2) by (simp add: doubleToString_def fle_def)
  moreover have "length (fmt_int_w 7 n) = 7" using n0 n1 by (intro length_fmt_int_w) simp_all
  ultimately show ?thesis by blast
qed


lemma round_to_double_within:
  assumes "0 \<le> y" and "y \<le> of_int a * pow2 j" and "y < pow2 (j + 53)" and "- 1074 \<le> j"
    and "y \<le> 2 ^ 64"
  shows "\<exists>r. round_to_double y = Finite r \<and> 0 \<le> r \<and> r \<le> of_int a * pow2 j"
proof (cases "y = 0")
  case True
  with assms(2) show ?thesis by (simp add: round_to_double_0)
next
  case False
  with assms(1) have "0 < y" by simp
  then show ?thesis using assms(2-5) by (rule round_to_double_upper)
qed

lemma doubleToString_seconds:
  assumes "1 / 4 < x" and "x \<le> 30" and "x - of_int \<lfloor>x\<rfloor> \<le> of_int a / 16" and "a \<le> 16"
  shows "\<exists>T. doubleToString (Finite x) = Some (fmt_int_w 5 \<lfloor>x\<rfloor> @ [dquote] @ fmt_int T) \<and>
             0 \<le> T \<and> T \<le> (5 * a + 4) div 8"
proof -
  define S where "S = \<lfloor>x\<rfloor>"
  define y where "y = x - of_int S"
  have S: "0 \<le> S" "S \<le> 30" unfolding S_def using assms(1,2) by (simp_all add: floor_le_iff)
  have y: "0 \<le> y" "y < 1" unfolding y_def S_def by linarith+
  have p4: "pow2 (- 4) = 1 / 16" and p3: "pow2 (- 3) = 1 / 8" by (simp_all add: pow2_def)
  have "1 \<le> pow2 49" using pow2_mono [of 0 49] by (simp add: pow2_def)
  with y(2) have "y < pow2 (- 4 + 53)" by simp
  moreover have "y \<le> of_int a * pow2 (- 4)" using assms(3) by (simp add: y_def S_def p4)
  moreover have "y \<le> 2 ^ 64" using y(2) by (rule less_imp_le [OF less_le_trans]) simp
  ultimately obtain r1 where r1: "round_to_double y = Finite r1" "0 \<le> r1" "r1 \<le> of_int a / 16"
    using round_to_double_within [OF y(1), of a "- 4"] by (auto simp: p4)
  have a16: "(of_int a :: rat) \<le> 16" using assms(4) by (metis of_int_le_iff of_int_numeral)
  have z: "0 \<le> r1 * 10" "r1 * 10 \<le> of_int (5 * a) * pow2 (- 3)" "r1 * 10 \<le> 10"
    using r1(2,3) a16 by (simp_all add: p3)
  have "(10::rat) < pow2 50" using pow2_strict_mono [of 4 50] by (simp add: pow2_def)
  with z(3) have "r1 * 10 < pow2 (- 3 + 53)" by simp
  moreover have "r1 * 10 \<le> 2 ^ 64" using z(3) by (rule order_trans) simp
  ultimately obtain r2 where r2: "round_to_double (r1 * 10) = Finite r2" "0 \<le> r2"
    "r2 \<le> of_int (5 * a) / 8"
    using round_to_double_within [OF z(1,2)] by (auto simp: p3)
  define T where "T = round_half_away r2"
  have T0: "0 \<le> T" using r2(2) by (simp add: T_def round_half_away_def)
  have "r2 + 1 / 2 \<le> of_int (5 * a + 4) / of_int 8" using r2(3) by simp
  then have "\<lfloor>r2 + 1 / 2\<rfloor> \<le> \<lfloor>(of_int (5 * a + 4) :: rat) / of_int 8\<rfloor>" by (rule floor_mono)
  then have T1: "T \<le> (5 * a + 4) div 8"
    using r2(2) by (simp only: floor_divide_of_int_eq T_def round_half_away_def if_True)
  have "(5 * a + 4) div 8 \<le> 10" using assms(4) by simp
  with T1 have T2: "T \<le> 10" by simp
  have sub: "fsub (Finite x) (int_to_double S) = Finite r1"
    using r1(1) by (simp add: fsub_def fneg_def fadd_def int_to_double_def y_def)
  have mul: "fmul (Finite r1) (int_to_double 10) = Finite r2"
    using r2(1) by (simp add: fmul_def int_to_double_def)
  have fl: "double_to_int (std_floor (Finite x)) = Some S"
    using S by (simp add: std_floor_def double_to_int_of_int in_int_range_def INT_MIN_def
        INT_MAX_def S_def [symmetric])
  have rd: "double_to_int (std_round (Finite r2)) = Some T"
    using T0 T2 by (simp add: std_round_def double_to_int_of_int in_int_range_def INT_MIN_def
        INT_MAX_def T_def [symmetric])
  have "doubleToString (Finite x) = Some (fmt_int_w 5 S @ [dquote] @ fmt_int T)"
    using assms(1,2) by (simp add: doubleToString_def fle_def fl sub mul rd)
  with T0 T1 show ?thesis unfolding S_def by blast
qed

lemma doubleToString_seconds_width:
  assumes "1 / 4 < x" and "x \<le> 30" and "x - of_int \<lfloor>x\<rfloor> \<le> 15 / 16"
  shows "\<exists>s. doubleToString (Finite x) = Some s \<and> length s = 7"
proof -
  from doubleToString_seconds [OF assms(1,2), of 15] assms(3)
  obtain T where T: "doubleToString (Finite x) = Some (fmt_int_w 5 \<lfloor>x\<rfloor> @ [dquote] @ fmt_int T)"
    "0 \<le> T" "T \<le> 9"
    by auto
  have "0 \<le> \<lfloor>x\<rfloor>" "\<lfloor>x\<rfloor> < 10 ^ 5" using assms(1,2) by (simp_all add: floor_less_iff) 
  then have "length (fmt_int_w 5 \<lfloor>x\<rfloor>) = 5" by (intro length_fmt_int_w) simp_all
  moreover have "length (fmt_int T) = 1" using T(2,3) by (intro length_fmt_int_digit) simp_all
  ultimately show ?thesis using T(1) by simp
qed

lemma doubleToString_width:
  assumes "1 / 2 ^ 23 \<le> x" and "x \<le> 2147483647"
    and "x \<le> 1 / 4 \<or> 30 < x \<or> x - of_int \<lfloor>x\<rfloor> \<le> 15 / 16"
  shows "\<exists>s. doubleToString (Finite x) = Some s \<and> length s = 7"
proof -
  consider "x \<le> 1 / 4" | "30 < x" | "1 / 4 < x" "x \<le> 30" "x - of_int \<lfloor>x\<rfloor> \<le> 15 / 16"
    using assms(3) by linarith
  then show ?thesis
  proof cases
    case 1
    with assms(1) show ?thesis by (rule doubleToString_fraction_width)
  next
    case 2
    then show ?thesis using assms(2) by (rule doubleToString_bulb_width)
  next
    case 3
    then show ?thesis by (rule doubleToString_seconds_width)
  qed
qed

section \<open>The duration formatter at its band boundaries\<close>

text \<open>
  C1. \<open>doubleToString\<close> chooses its band with \<open><=\<close>, so a boundary value takes the
  lower band: 0.25 is printed as the fraction \<open>4\<close> in a field of seven, 30.0 in the
  seconds form \<open>30"0\<close>. The double nearest to 30.1 is past 30 and is printed in the
  BULB form as 0 minutes 31 seconds, and 3661 seconds, more than 60 minutes, as 1 hour
  01 minute without its seconds. The minutes form likewise still takes 60 minutes:
  3659 seconds are printed as 60 minutes 59 seconds.
\<close>

theorem doubleToString_band_boundaries:
  \<open>doubleToString (Finite (1 / 4)) = Some ''      4'' \<and>
   doubleToString (Finite 30) = Some ''   30"0'' \<and>
   doubleToString (round_to_double (301 / 10)) = Some '' 0' 31"'' \<and>
   doubleToString (Finite 3661) = Some ('' 1h 01'' @ [squote]) \<and>
   doubleToString (Finite 3659) = Some ''60' 59"''\<close>
  by (simp add: all_eval)

section \<open>The shutter table\<close>

text \<open>
  C9, as the source has it. The table \<open>shutters\<close> is a constant of 52 values, the
  size its declaration \<open>std::array<Shutter, 52>\<close> gives it: 31 built from a fraction
  and 21 from seconds and tenths. It does not have 36 entries.
\<close>

theorem shutters_has_52_values: "length shutters = 52"
  by (simp add: shutters_def)

text \<open>
  The count of the claim, 36, is not the length of the table.
\<close>

theorem shutters_not_36_values: "length shutters \<noteq> 36"
  by (simp add: shutters_def)

section \<open>Combining filters\<close>

text \<open>
  C5. \<open>operator+\<close> returns a new filter whose stops are the sum of the operands' stops
  and whose name is the left name, one space, the right name. The sum is an \<open>int\<close>
  addition, so it is stated where that addition is defined. Swapping the operands
  keeps the stops and, as ND1000 with ND64 shows, changes the name.
\<close>

theorem Filter_plus_sums_stops_joins_names:
  assumes "in_int_range (stops a + stops b)"
  shows "Filter_plus a b = Some \<lparr> stops = stops a + stops b, name = name a @ '' '' @ name b \<rparr> \<and>
         map_option stops (Filter_plus b a) = map_option stops (Filter_plus a b) \<and>
         map_option name (Filter_plus (filters ! 0) (filters ! 1))
           \<noteq> map_option name (Filter_plus (filters ! 1) (filters ! 0))"
  using assms by (simp add: Filter_plus_def int_add_def add.commute [of "stops b"] filters_def in_int_range_def INT_MIN_def INT_MAX_def)

theorem Filter_plus_sums_stops_joins_names_witness:
  "in_int_range (stops (filters ! 0) + stops (filters ! 3)) \<and>
   Filter_plus (filters ! 0) (filters ! 3) = Some \<lparr> stops = 12, name = ''1k 4'' \<rparr>"
proof -
  have h: "in_int_range (stops (filters ! 0) + stops (filters ! 3))"
    by (simp add: filters_def int_eval)
  show ?thesis
    using h Filter_plus_sums_stops_joins_names [OF h] by (simp add: filters_def)
qed

section \<open>The header of the CSV table\<close>

lemma displayCsvTable_loop_rows:
  "0 < middle \<Longrightarrow> 0 \<le> i \<Longrightarrow> 0 < i mod middle \<Longrightarrow> i mod middle + int (length rows) \<le> middle \<Longrightarrow>
   displayCsvTable_loop middle i rows = Some (map DisplayCsvRow rows)"
proof (induction rows arbitrary: i)
  case Nil
  then show ?case by simp
next
  case (Cons sh rows)
  show ?case
  proof (cases rows)
    case Nil
    with Cons.prems show ?thesis by (simp add: tmod_nonneg)
  next
    case (Cons sh' rows')
    have "(i + 1) mod middle = (i mod middle + 1) mod middle"
      by (simp add: mod_add_left_eq)
    also have "\<dots> = i mod middle + 1"
      using Cons.prems Cons by (intro mod_pos_pos_trivial) simp_all
    finally have step: "(i + 1) mod middle = i mod middle + 1" .
    have "displayCsvTable_loop middle (i + 1) rows = Some (map DisplayCsvRow rows)"
      using Cons.prems step by (intro Cons.IH) simp_all
    with Cons.prems show ?thesis by (simp add: tmod_nonneg)
  qed
qed


lemma displayCsvTable_loop_block:
  assumes "0 < middle" and "0 \<le> i" and "i mod middle = 0" and "rows \<noteq> []"
    and "int (length rows) \<le> middle"
  shows "displayCsvTable_loop middle i rows = Some (DisplayCsvHeader # map DisplayCsvRow rows)"
proof -
  from assms(4) obtain sh rest where rows: "rows = sh # rest" by (cases rows) auto
  have "displayCsvTable_loop middle (i + 1) rest = Some (map DisplayCsvRow rest)"
  proof (cases rest)
    case Nil
    then show ?thesis by simp
  next
    case (Cons sh' rest')
    with assms(5) rows have m: "1 < middle" by simp
    have "(i + 1) mod middle = (i mod middle + 1) mod middle"
      by (simp add: mod_add_left_eq)
    with assms(3) m have "(i + 1) mod middle = 1" by simp
    with assms rows show ?thesis by (intro displayCsvTable_loop_rows) simp_all
  qed
  with assms rows show ?thesis by (simp add: tmod_nonneg)
qed

lemma displayCsvTable_loop_append:
  "0 < middle \<Longrightarrow>
   displayCsvTable_loop middle i (xs @ ys) =
     displayCsvTable_loop middle i xs \<bind>
       (\<lambda>a. displayCsvTable_loop middle (i + int (length xs)) ys \<bind> (\<lambda>b. Some (a @ b)))"
proof (induction xs arbitrary: i)
  case Nil
  then show ?case by simp
next
  case (Cons x xs)
  then show ?case
    by (cases "displayCsvTable_loop middle (i + 1) xs";
        cases "displayCsvTable_loop middle (i + 1 + int (length xs)) ys")
       (simp_all add: add.assoc add.commute [of 1])
qed

text \<open>
  For a table of even length, at least 2, the header is called before the first row
  and before the row in the middle, and nowhere else.
\<close>

lemma displayCsvTable_of_even_length:
  assumes "even (length table)" and "2 \<le> length table"
  shows "displayCsvTable_of table =
           Some (DisplayCsvHeader # map DisplayCsvRow (take (length table div 2) table)
                 @ DisplayCsvHeader # map DisplayCsvRow (drop (length table div 2) table))"
proof -
  define m where "m = length table div 2"
  from assms have len: "length table = 2 * m" and mpos: "0 < m" by (auto simp: m_def)
  have middle: "tdiv (int (length table)) 2 = int m"
    by (simp add: tdiv_nonneg len)
  have a: "displayCsvTable_loop (int m) 0 (take m table)
             = Some (DisplayCsvHeader # map DisplayCsvRow (take m table))"
    using mpos len by (intro displayCsvTable_loop_block) auto
  have b: "displayCsvTable_loop (int m) (int m) (drop m table)
             = Some (DisplayCsvHeader # map DisplayCsvRow (drop m table))"
    using mpos len by (intro displayCsvTable_loop_block) auto
  have "displayCsvTable_loop (int m) 0 (take m table @ drop m table)
          = Some ((DisplayCsvHeader # map DisplayCsvRow (take m table))
                  @ DisplayCsvHeader # map DisplayCsvRow (drop m table))"
    using mpos len a b by (subst displayCsvTable_loop_append) (simp_all add: min_def)
  then show ?thesis
    by (simp add: displayCsvTable_of_def Let_def middle m_def [symmetric])
qed

text \<open>
  C8. The shutter list of the program has \<open>N = 52\<close> entries and \<open>displayCsvTable\<close> walks
  all of them: it calls \<open>displayCsvHeader\<close> exactly twice, immediately before row 0 and
  immediately before row \<open>N div 2 = 26\<close>, and calls \<open>displayCsvRow\<close> for each row in
  between and after; no row call is a header call.
\<close>

theorem displayCsvTable_header_twice:
  "length shutters = 52 \<and> length shutters div 2 = 26 \<and>
   displayCsvTable =
     Some (DisplayCsvHeader # map DisplayCsvRow (take (length shutters div 2) shutters)
           @ DisplayCsvHeader # map DisplayCsvRow (drop (length shutters div 2) shutters)) \<and>
   DisplayCsvHeader \<notin> set (map DisplayCsvRow shutters)"
proof -
  have len: "length shutters = 52" by (simp add: shutters_def)
  then have h: "even (length shutters)" "2 \<le> length shutters" by simp_all
  have "displayCsvTable =
     Some (DisplayCsvHeader # map DisplayCsvRow (take (length shutters div 2) shutters)
           @ DisplayCsvHeader # map DisplayCsvRow (drop (length shutters div 2) shutters))"
    unfolding displayCsvTable_def by (rule displayCsvTable_of_even_length [OF h])
  moreover have "DisplayCsvHeader \<notin> set (map DisplayCsvRow shutters)" by auto
  ultimately show ?thesis using len by simp
qed

section \<open>Sorting the combined filters\<close>

lemma filter_key_distinct:
  "distinct (map f xs) \<Longrightarrow> k \<in> set xs \<Longrightarrow> filter (\<lambda>x. f k = f x) xs = [k]"
proof (induction xs)
  case Nil
  then show ?case by simp
next
  case (Cons x xs)
  show ?case
  proof (cases "k = x")
    case True
    have "filter (\<lambda>y. f x = f y) xs = []"
      using Cons.prems(1) by (auto simp: filter_empty_conv)
    with True show ?thesis by simp
  next
    case False
    with Cons.prems have k: "k \<in> set xs" by simp
    with Cons.prems(1) have "f k \<noteq> f x" by (auto simp: image_iff)
    with Cons k show ?thesis by simp
  qed
qed

lemma sortFilters_sorted: "sortFilters before after \<Longrightarrow> sorted (map stops after)"
  by (simp add: sortFilters_def Filter_less_def sorted_map not_less)

lemma sortFilters_unique:
  assumes "sortFilters before after" and "distinct (map stops before)"
  shows "after = sort_key stops before"
proof -
  from assms(1) have m: "mset after = mset before" by (simp add: sortFilters_def)
  then have "mset (map stops after) = mset (map stops before)" by simp
  with assms(2) have d: "distinct (map stops after)"
    by (metis mset_eq_imp_distinct_iff)
  have s: "set after = set before" using m by (rule mset_eq_setD)
  have "sort_key stops before = after"
  proof (rule properties_for_sort_key [OF m])
    fix k assume k: "k \<in> set after"
    then have "filter (\<lambda>x. stops k = stops x) after = [k]"
      using d by (intro filter_key_distinct)
    moreover have "filter (\<lambda>x. stops k = stops x) before = [k]"
      using assms(2) k s by (intro filter_key_distinct) simp_all
    ultimately show "filter (\<lambda>x. stops k = stops x) after = filter (\<lambda>x. stops k = stops x) before"
      by simp
  next
    show "sorted (map stops after)" using assms(1) by (rule sortFilters_sorted)
  qed
  then show ?thesis by simp
qed






section \<open>The combinations\<close>

lemma populated_eval:
  "populated =
     Some (filters @
           [\<lparr> stops = 16, name = ''1k 64'' \<rparr>, \<lparr> stops = 13, name = ''1k 8'' \<rparr>,
            \<lparr> stops = 12, name = ''1k 4'' \<rparr>, \<lparr> stops = 9, name = ''64 8'' \<rparr>,
            \<lparr> stops = 8, name = ''64 4'' \<rparr>, \<lparr> stops = 5, name = ''8 4'' \<rparr>] @
           [\<lparr> stops = 18, name = ''1k 64 4'' \<rparr>, \<lparr> stops = 15, name = ''1k 8 4'' \<rparr>])"
  by (simp add: populated_def populateFiltersWithGeneratedCombinations_def
      populateFiltersWithHandPickedCombinations_def pair_indices_def push_back_def filters_def
      Filter_plus_def int_eval upt_rec [of _ "numeral k" for k] upt_rec [of _ "Suc 0"])

lemma generated_sorted_unique:
  assumes "sortFilters (filters @
           [\<lparr> stops = 16, name = ''1k 64'' \<rparr>, \<lparr> stops = 13, name = ''1k 8'' \<rparr>,
            \<lparr> stops = 12, name = ''1k 4'' \<rparr>, \<lparr> stops = 9, name = ''64 8'' \<rparr>,
            \<lparr> stops = 8, name = ''64 4'' \<rparr>, \<lparr> stops = 5, name = ''8 4'' \<rparr>] @
           [\<lparr> stops = 18, name = ''1k 64 4'' \<rparr>, \<lparr> stops = 15, name = ''1k 8 4'' \<rparr>]) after"
  shows "after =
           [\<lparr> stops = 2, name = ''4'' \<rparr>, \<lparr> stops = 3, name = ''8'' \<rparr>,
            \<lparr> stops = 5, name = ''8 4'' \<rparr>, \<lparr> stops = 6, name = ''64'' \<rparr>,
            \<lparr> stops = 8, name = ''64 4'' \<rparr>, \<lparr> stops = 9, name = ''64 8'' \<rparr>,
            \<lparr> stops = 10, name = ''1k'' \<rparr>, \<lparr> stops = 12, name = ''1k 4'' \<rparr>,
            \<lparr> stops = 13, name = ''1k 8'' \<rparr>, \<lparr> stops = 15, name = ''1k 8 4'' \<rparr>,
            \<lparr> stops = 16, name = ''1k 64'' \<rparr>, \<lparr> stops = 18, name = ''1k 64 4'' \<rparr>]"
proof -
  have "distinct (map stops (filters @
           [\<lparr> stops = 16, name = ''1k 64'' \<rparr>, \<lparr> stops = 13, name = ''1k 8'' \<rparr>,
            \<lparr> stops = 12, name = ''1k 4'' \<rparr>, \<lparr> stops = 9, name = ''64 8'' \<rparr>,
            \<lparr> stops = 8, name = ''64 4'' \<rparr>, \<lparr> stops = 5, name = ''8 4'' \<rparr>] @
           [\<lparr> stops = 18, name = ''1k 64 4'' \<rparr>, \<lparr> stops = 15, name = ''1k 8 4'' \<rparr>]))"
    by (simp add: filters_def)
  with assms have "after = sort_key stops (filters @
           [\<lparr> stops = 16, name = ''1k 64'' \<rparr>, \<lparr> stops = 13, name = ''1k 8'' \<rparr>,
            \<lparr> stops = 12, name = ''1k 4'' \<rparr>, \<lparr> stops = 9, name = ''64 8'' \<rparr>,
            \<lparr> stops = 8, name = ''64 4'' \<rparr>, \<lparr> stops = 5, name = ''8 4'' \<rparr>] @
           [\<lparr> stops = 18, name = ''1k 64 4'' \<rparr>, \<lparr> stops = 15, name = ''1k 8 4'' \<rparr>])"
    by (rule sortFilters_unique)
  then show ?thesis by (simp add: filters_def)
qed

text \<open>
  C7. After the two populating calls \<open>combinedFilters\<close> holds twelve filters: the four
  of \<open>filters\<close> as they are, the six pairs \<open>filters[i] + filters[j]\<close> with \<open>i < j\<close> in
  index order, and the two triples \<open>filters[0] + filters[1] + filters[3]\<close> and
  \<open>filters[0] + filters[2] + filters[3]\<close>. Their stops all differ, so \<open>sortFilters\<close>
  can leave these twelve in one order only.
\<close>

theorem combinedFilters_twelve_combinations:
  "populated =
     Some (filters @
           [\<lparr> stops = 16, name = ''1k 64'' \<rparr>, \<lparr> stops = 13, name = ''1k 8'' \<rparr>,
            \<lparr> stops = 12, name = ''1k 4'' \<rparr>, \<lparr> stops = 9, name = ''64 8'' \<rparr>,
            \<lparr> stops = 8, name = ''64 4'' \<rparr>, \<lparr> stops = 5, name = ''8 4'' \<rparr>] @
           [\<lparr> stops = 18, name = ''1k 64 4'' \<rparr>, \<lparr> stops = 15, name = ''1k 8 4'' \<rparr>]) \<and>
   map (\<lambda>(i, j). Filter_plus (filters ! i) (filters ! j))
       [(0, 1), (0, 2), (0, 3), (1, 2), (1, 3), (2, 3)] =
     map Some
           [\<lparr> stops = 16, name = ''1k 64'' \<rparr>, \<lparr> stops = 13, name = ''1k 8'' \<rparr>,
            \<lparr> stops = 12, name = ''1k 4'' \<rparr>, \<lparr> stops = 9, name = ''64 8'' \<rparr>,
            \<lparr> stops = 8, name = ''64 4'' \<rparr>, \<lparr> stops = 5, name = ''8 4'' \<rparr>] \<and>
   [Filter_plus (filters ! 0) (filters ! 1) \<bind> (\<lambda>f. Filter_plus f (filters ! 3)),
    Filter_plus (filters ! 0) (filters ! 2) \<bind> (\<lambda>f. Filter_plus f (filters ! 3))] =
     map Some
           [\<lparr> stops = 18, name = ''1k 64 4'' \<rparr>, \<lparr> stops = 15, name = ''1k 8 4'' \<rparr>] \<and>
   (\<forall>generated after.
      populated = Some generated \<and> sortFilters generated after \<longrightarrow>
      length after = 12 \<and> mset after = mset generated \<and>
      after =
           [\<lparr> stops = 2, name = ''4'' \<rparr>, \<lparr> stops = 3, name = ''8'' \<rparr>,
            \<lparr> stops = 5, name = ''8 4'' \<rparr>, \<lparr> stops = 6, name = ''64'' \<rparr>,
            \<lparr> stops = 8, name = ''64 4'' \<rparr>, \<lparr> stops = 9, name = ''64 8'' \<rparr>,
            \<lparr> stops = 10, name = ''1k'' \<rparr>, \<lparr> stops = 12, name = ''1k 4'' \<rparr>,
            \<lparr> stops = 13, name = ''1k 8'' \<rparr>, \<lparr> stops = 15, name = ''1k 8 4'' \<rparr>,
            \<lparr> stops = 16, name = ''1k 64'' \<rparr>, \<lparr> stops = 18, name = ''1k 64 4'' \<rparr>])"
proof (intro conjI allI impI)
  show "populated =
     Some (filters @
           [\<lparr> stops = 16, name = ''1k 64'' \<rparr>, \<lparr> stops = 13, name = ''1k 8'' \<rparr>,
            \<lparr> stops = 12, name = ''1k 4'' \<rparr>, \<lparr> stops = 9, name = ''64 8'' \<rparr>,
            \<lparr> stops = 8, name = ''64 4'' \<rparr>, \<lparr> stops = 5, name = ''8 4'' \<rparr>] @
           [\<lparr> stops = 18, name = ''1k 64 4'' \<rparr>, \<lparr> stops = 15, name = ''1k 8 4'' \<rparr>])"
    by (rule populated_eval)
  show "map (\<lambda>(i, j). Filter_plus (filters ! i) (filters ! j))
       [(0, 1), (0, 2), (0, 3), (1, 2), (1, 3), (2, 3)] =
     map Some
           [\<lparr> stops = 16, name = ''1k 64'' \<rparr>, \<lparr> stops = 13, name = ''1k 8'' \<rparr>,
            \<lparr> stops = 12, name = ''1k 4'' \<rparr>, \<lparr> stops = 9, name = ''64 8'' \<rparr>,
            \<lparr> stops = 8, name = ''64 4'' \<rparr>, \<lparr> stops = 5, name = ''8 4'' \<rparr>]"
    by (simp add: filters_def Filter_plus_def int_eval)
  show "[Filter_plus (filters ! 0) (filters ! 1) \<bind> (\<lambda>f. Filter_plus f (filters ! 3)),
    Filter_plus (filters ! 0) (filters ! 2) \<bind> (\<lambda>f. Filter_plus f (filters ! 3))] =
     map Some
           [\<lparr> stops = 18, name = ''1k 64 4'' \<rparr>, \<lparr> stops = 15, name = ''1k 8 4'' \<rparr>]"
    by (simp add: filters_def Filter_plus_def int_eval)
next
  fix generated after
  assume a: "populated = Some generated \<and> sortFilters generated after"
  then have g: "generated = filters @
           [\<lparr> stops = 16, name = ''1k 64'' \<rparr>, \<lparr> stops = 13, name = ''1k 8'' \<rparr>,
            \<lparr> stops = 12, name = ''1k 4'' \<rparr>, \<lparr> stops = 9, name = ''64 8'' \<rparr>,
            \<lparr> stops = 8, name = ''64 4'' \<rparr>, \<lparr> stops = 5, name = ''8 4'' \<rparr>] @
           [\<lparr> stops = 18, name = ''1k 64 4'' \<rparr>, \<lparr> stops = 15, name = ''1k 8 4'' \<rparr>]"
    by (simp add: populated_eval)
  with a have s: "sortFilters (filters @
           [\<lparr> stops = 16, name = ''1k 64'' \<rparr>, \<lparr> stops = 13, name = ''1k 8'' \<rparr>,
            \<lparr> stops = 12, name = ''1k 4'' \<rparr>, \<lparr> stops = 9, name = ''64 8'' \<rparr>,
            \<lparr> stops = 8, name = ''64 4'' \<rparr>, \<lparr> stops = 5, name = ''8 4'' \<rparr>] @
           [\<lparr> stops = 18, name = ''1k 64 4'' \<rparr>, \<lparr> stops = 15, name = ''1k 8 4'' \<rparr>]) after"
    by simp
  show "after =
           [\<lparr> stops = 2, name = ''4'' \<rparr>, \<lparr> stops = 3, name = ''8'' \<rparr>,
            \<lparr> stops = 5, name = ''8 4'' \<rparr>, \<lparr> stops = 6, name = ''64'' \<rparr>,
            \<lparr> stops = 8, name = ''64 4'' \<rparr>, \<lparr> stops = 9, name = ''64 8'' \<rparr>,
            \<lparr> stops = 10, name = ''1k'' \<rparr>, \<lparr> stops = 12, name = ''1k 4'' \<rparr>,
            \<lparr> stops = 13, name = ''1k 8'' \<rparr>, \<lparr> stops = 15, name = ''1k 8 4'' \<rparr>,
            \<lparr> stops = 16, name = ''1k 64'' \<rparr>, \<lparr> stops = 18, name = ''1k 64 4'' \<rparr>]"
    using s by (rule generated_sorted_unique)
  then show "length after = 12" by simp
  show "mset after = mset generated" using a by (simp add: sortFilters_def)
qed

theorem combinedFilters_twelve_combinations_witness:
  "populated =
     Some [\<lparr> stops = 10, name = ''1k'' \<rparr>, \<lparr> stops = 6, name = ''64'' \<rparr>,
           \<lparr> stops = 3, name = ''8'' \<rparr>, \<lparr> stops = 2, name = ''4'' \<rparr>,
            \<lparr> stops = 16, name = ''1k 64'' \<rparr>, \<lparr> stops = 13, name = ''1k 8'' \<rparr>,
            \<lparr> stops = 12, name = ''1k 4'' \<rparr>, \<lparr> stops = 9, name = ''64 8'' \<rparr>,
            \<lparr> stops = 8, name = ''64 4'' \<rparr>, \<lparr> stops = 5, name = ''8 4'' \<rparr>,
            \<lparr> stops = 18, name = ''1k 64 4'' \<rparr>, \<lparr> stops = 15, name = ''1k 8 4'' \<rparr>] \<and>
   sortFilters
          [\<lparr> stops = 10, name = ''1k'' \<rparr>, \<lparr> stops = 6, name = ''64'' \<rparr>,
           \<lparr> stops = 3, name = ''8'' \<rparr>, \<lparr> stops = 2, name = ''4'' \<rparr>,
            \<lparr> stops = 16, name = ''1k 64'' \<rparr>, \<lparr> stops = 13, name = ''1k 8'' \<rparr>,
            \<lparr> stops = 12, name = ''1k 4'' \<rparr>, \<lparr> stops = 9, name = ''64 8'' \<rparr>,
            \<lparr> stops = 8, name = ''64 4'' \<rparr>, \<lparr> stops = 5, name = ''8 4'' \<rparr>,
            \<lparr> stops = 18, name = ''1k 64 4'' \<rparr>, \<lparr> stops = 15, name = ''1k 8 4'' \<rparr>]
           [\<lparr> stops = 2, name = ''4'' \<rparr>, \<lparr> stops = 3, name = ''8'' \<rparr>,
            \<lparr> stops = 5, name = ''8 4'' \<rparr>, \<lparr> stops = 6, name = ''64'' \<rparr>,
            \<lparr> stops = 8, name = ''64 4'' \<rparr>, \<lparr> stops = 9, name = ''64 8'' \<rparr>,
            \<lparr> stops = 10, name = ''1k'' \<rparr>, \<lparr> stops = 12, name = ''1k 4'' \<rparr>,
            \<lparr> stops = 13, name = ''1k 8'' \<rparr>, \<lparr> stops = 15, name = ''1k 8 4'' \<rparr>,
            \<lparr> stops = 16, name = ''1k 64'' \<rparr>, \<lparr> stops = 18, name = ''1k 64 4'' \<rparr>]"
proof -
  have p: "populated =
     Some [\<lparr> stops = 10, name = ''1k'' \<rparr>, \<lparr> stops = 6, name = ''64'' \<rparr>,
           \<lparr> stops = 3, name = ''8'' \<rparr>, \<lparr> stops = 2, name = ''4'' \<rparr>,
            \<lparr> stops = 16, name = ''1k 64'' \<rparr>, \<lparr> stops = 13, name = ''1k 8'' \<rparr>,
            \<lparr> stops = 12, name = ''1k 4'' \<rparr>, \<lparr> stops = 9, name = ''64 8'' \<rparr>,
            \<lparr> stops = 8, name = ''64 4'' \<rparr>, \<lparr> stops = 5, name = ''8 4'' \<rparr>,
            \<lparr> stops = 18, name = ''1k 64 4'' \<rparr>, \<lparr> stops = 15, name = ''1k 8 4'' \<rparr>]"
    using combinedFilters_twelve_combinations by (simp add: filters_def)
  have s: "sortFilters
          [\<lparr> stops = 10, name = ''1k'' \<rparr>, \<lparr> stops = 6, name = ''64'' \<rparr>,
           \<lparr> stops = 3, name = ''8'' \<rparr>, \<lparr> stops = 2, name = ''4'' \<rparr>,
            \<lparr> stops = 16, name = ''1k 64'' \<rparr>, \<lparr> stops = 13, name = ''1k 8'' \<rparr>,
            \<lparr> stops = 12, name = ''1k 4'' \<rparr>, \<lparr> stops = 9, name = ''64 8'' \<rparr>,
            \<lparr> stops = 8, name = ''64 4'' \<rparr>, \<lparr> stops = 5, name = ''8 4'' \<rparr>,
            \<lparr> stops = 18, name = ''1k 64 4'' \<rparr>, \<lparr> stops = 15, name = ''1k 8 4'' \<rparr>]
           [\<lparr> stops = 2, name = ''4'' \<rparr>, \<lparr> stops = 3, name = ''8'' \<rparr>,
            \<lparr> stops = 5, name = ''8 4'' \<rparr>, \<lparr> stops = 6, name = ''64'' \<rparr>,
            \<lparr> stops = 8, name = ''64 4'' \<rparr>, \<lparr> stops = 9, name = ''64 8'' \<rparr>,
            \<lparr> stops = 10, name = ''1k'' \<rparr>, \<lparr> stops = 12, name = ''1k 4'' \<rparr>,
            \<lparr> stops = 13, name = ''1k 8'' \<rparr>, \<lparr> stops = 15, name = ''1k 8 4'' \<rparr>,
            \<lparr> stops = 16, name = ''1k 64'' \<rparr>, \<lparr> stops = 18, name = ''1k 64 4'' \<rparr>]"
    by (simp add: sortFilters_def Filter_less_def)
  show ?thesis by (rule conjI [OF p s])
qed

section \<open>Applying stops\<close>

text \<open>
  What the rounding returns is a double, so the time of a shutter built by either
  constructor is one: at most 1 for a positive fraction, at most \<open>2 ^ 32\<close> for seconds
  and tenths that are not negative.
\<close>


lemma round_to_double_FiniteD:
  assumes "round_to_double y = Finite r"
  shows "r = of_int (round_half_even (y / pow2 (ulp_exp y))) * pow2 (ulp_exp y)" and "\<bar>r\<bar> < 2 ^ 1024"
  using assms by (auto simp: round_to_double_def Let_def round_half_even_def split: if_splits)

lemma round_to_double_is_double:
  assumes "round_to_double y = Finite r"
  shows "is_double r"
proof (cases "r = 0")
  case True
  then show ?thesis by (simp add: is_double_def)
next
  case False
  define e where "e = ulp_exp y"
  define m where "m = round_half_even (y / pow2 e)"
  have r: "r = of_int m * pow2 e" and fin: "\<bar>r\<bar> < 2 ^ 1024"
    using round_to_double_FiniteD [OF assms] by (simp_all add: m_def e_def)
  from False r have y0: "y \<noteq> 0" by (auto simp: m_def round_half_even_def)
  then have ypos: "0 < \<bar>y\<bar>" by simp
  define b where "b = binade \<bar>y\<bar>"
  have e_ge: "b - 52 \<le> e" "- 1074 \<le> e" by (simp_all add: e_def ulp_exp_def b_def)
  have "\<bar>y\<bar> < pow2 (b + 1)" unfolding b_def by (rule binade_bounds(2) [OF ypos])
  also have "\<dots> \<le> pow2 (e + 53)" using e_ge(1) by (intro pow2_mono) simp
  also have "\<dots> = pow2 e * 2 ^ 53" using pow2_add [of e 53] pow2_nat [of 53] by simp
  finally have "\<bar>y\<bar> / pow2 e < 2 ^ 53" using pow2_pos [of e] by (simp add: field_simps)
  moreover define z where "z = y / pow2 e"
  ultimately have "\<bar>z\<bar> < 2 ^ 53" using pow2_pos [of e] by simp
  then have zb: "z \<le> of_int (2 ^ 53)" "of_int (- (2 ^ 53)) \<le> z" by (simp_all add: abs_less_iff)
  have "round_half_even z \<le> 2 ^ 53" "- (2 ^ 53) \<le> round_half_even z"
    using round_half_even_le [OF zb(1)] round_half_even_ge [OF zb(2)] by simp_all
  then have mb: "m \<le> 2 ^ 53" "- (2 ^ 53) \<le> m"
    by (simp_all add: m_def z_def)
  from False r have m0: "m \<noteq> 0" by auto
  have rabs: "\<bar>r\<bar> = of_int \<bar>m\<bar> * pow2 e" using pow2_pos [of e] by (simp add: r abs_mult)
  have rpos: "0 < \<bar>r\<bar>" using False by simp
  show ?thesis
  proof (cases "\<bar>m\<bar> = 2 ^ 53")
    case True
    then have "\<bar>r\<bar> = pow2 (e + 53)"
      using rabs pow2_add [of e 53] pow2_nat [of 53] by (simp add: mult.commute)
    then have "binade \<bar>r\<bar> = e + 53"
      using pow2_strict_mono [of "e + 53" "e + 53 + 1"] by (intro binade_unique) simp_all
    then have "ulp_exp r = e + 1" using e_ge(2) by (simp add: ulp_exp_def)
    moreover have "pow2 (e + 1) = pow2 e * 2" using pow2_add [of e 1] by (simp add: pow2_def)
    ultimately have h: "r / pow2 (ulp_exp r) = of_int m / 2" using pow2_pos [of e] by (simp add: r)
    from True have "m = 2 * 2 ^ 52 \<or> m = 2 * - (2 ^ 52)" by (simp add: abs_eq_iff')
    then obtain k where "m = 2 * k" by blast
    then have "(of_int m :: rat) / 2 = of_int k" by simp
    with h have "\<exists>a. r / pow2 (ulp_exp r) = of_int a" by auto
    with fin show ?thesis unfolding is_double_on_grid by blast
  next
    case False
    with mb have "\<bar>m\<bar> < 2 ^ 53" by simp
    then have "(of_int \<bar>m\<bar> :: rat) < 2 ^ 53" by (metis of_int_less_iff of_int_numeral of_int_power)
    then have "\<bar>r\<bar> < 2 ^ 53 * pow2 e" unfolding rabs using pow2_pos [of e] by simp
    also have "\<dots> = pow2 (e + 52 + 1)"
      using pow2_add [of e 53] pow2_nat [of 53] by (simp add: mult.commute add.commute)
    finally have "binade \<bar>r\<bar> \<le> e + 52" using rpos by (intro binade_less)
    with e_ge(2) have le: "ulp_exp r \<le> e" by (simp add: ulp_exp_def)
    define d where "d = nat (e - ulp_exp r)"
    define u where "u = pow2 (ulp_exp r)"
    have upos: "0 < u" by (simp add: u_def pow2_pos)
    have "int d + ulp_exp r = e" using le by (simp add: d_def)
    then have pe: "pow2 e = 2 ^ d * u"
      using pow2_add [of "int d" "ulp_exp r"] by (simp only: u_def pow2_nat)
    have "r / u = of_int m * (2 ^ d * u) / u" by (simp only: r pe)
    also have "\<dots> = of_int (m * 2 ^ d)" using upos by simp
    finally have "r / pow2 (ulp_exp r) = of_int (m * 2 ^ d)" by (simp only: u_def)
    then have "\<exists>a. r / pow2 (ulp_exp r) = of_int a" ..
    with fin show ?thesis unfolding is_double_on_grid by blast
  qed
qed


lemma Shutter_fraction_time:
  assumes "0 < N"
  shows "\<exists>q. time (Shutter_fraction N) = Finite q \<and> is_double q \<and> 0 \<le> q \<and> q \<le> 1"
proof -
  have N: "(1::rat) \<le> of_int N" using assms by simp
  then have y: "0 < 1 / (of_int N :: rat)" "1 / (of_int N :: rat) \<le> of_int 1 * pow2 0"
    by (simp_all add: pow2_def)
  have "1 / (of_int N :: rat) < pow2 (0 + 53)"
    using y(2) pow2_strict_mono [of 0 53] by (simp add: pow2_def)
  moreover have "1 / (of_int N :: rat) \<le> 2 ^ 64"
    using y(2) by (simp add: pow2_def order_trans [OF _ one_le_power])
  ultimately obtain r where r: "round_to_double (1 / of_int N) = Finite r" "0 \<le> r" "r \<le> 1"
    using round_to_double_upper [OF y] by (auto simp: pow2_def)
  have "time (Shutter_fraction N) = Finite r"
    using assms r(1) by (simp add: Shutter_fraction_def fdiv_def int_to_double_def)
  with r round_to_double_is_double [OF r(1)] show ?thesis by blast
qed

lemma Shutter_seconds_time:
  assumes "0 \<le> s" and "in_int_range s" and "0 \<le> h" and "in_int_range h"
  shows "\<exists>q. time (Shutter_seconds s h) = Finite q \<and> is_double q \<and> 0 \<le> q \<and> q \<le> 2 ^ 32"
proof -
  have s: "(0::rat) \<le> of_int s" "(of_int s :: rat) \<le> 2147483647"
    using assms(1,2) unfolding in_int_range_def INT_MAX_def
    by (simp, metis of_int_le_iff of_int_numeral)
  have h: "(0::rat) \<le> of_int h" "(of_int h :: rat) \<le> 2147483647"
    using assms(3,4) unfolding in_int_range_def INT_MAX_def
    by (simp, metis of_int_le_iff of_int_numeral)
  have p28: "pow2 28 = 2 ^ 28" and p32: "pow2 32 = 2 ^ 32" by (simp_all add: pow2_def)
  have y1: "0 \<le> (of_int h :: rat) / 10" "(of_int h :: rat) / 10 \<le> of_int 1 * pow2 28"
    using h by (simp_all add: p28)
  have "(of_int h :: rat) / 10 < pow2 (28 + 53)"
    using y1(2) pow2_strict_mono [of 28 "28 + 53"] by simp
  moreover have "(of_int h :: rat) / 10 \<le> 2 ^ 64" using h(2) by simp
  ultimately obtain r1 where r1: "round_to_double (of_int h / 10) = Finite r1" "0 \<le> r1"
    "r1 \<le> 2 ^ 28"
    using round_to_double_within [OF y1 _ _] by (auto simp: p28)
  have y2: "0 \<le> of_int s + r1" "of_int s + r1 \<le> of_int 1 * pow2 32"
    using s r1(2,3) by (simp_all add: p32)
  have "of_int s + r1 < pow2 (32 + 53)"
    using y2(2) pow2_strict_mono [of 32 "32 + 53"] by simp
  moreover have "of_int s + r1 \<le> 2 ^ 64" using y2(2) by (simp add: p32)
  ultimately obtain r2 where r2: "round_to_double (of_int s + r1) = Finite r2" "0 \<le> r2"
    "r2 \<le> 2 ^ 32"
    using round_to_double_within [OF y2 _ _] by (auto simp: p32)
  have "time (Shutter_seconds s h) = Finite r2"
    using r1(1) r2(1) by (simp add: Shutter_seconds_def fdiv_def fadd_def int_to_double_def)
  with r2 round_to_double_is_double [OF r2(1)] show ?thesis by blast
qed

text \<open>
  C3. \<open>toStringWithFilterStops\<close> formats \<open>time * (1 << stops)\<close>. For a shutter whose
  time is a finite double \<open>q\<close> and for 0 to 30 stops the shift is \<open>2 ^ stops\<close> and the
  product is exact: the duration is \<open>q * 2 ^ stops\<close>, with no rounding. For a time
  that is not negative, as the data model has it, the duration does not decrease when
  the stops grow. The bound on \<open>q\<close> keeps 30 doublings finite; the times the
  constructors build are far below it.
\<close>

theorem increasedShutterTime_doubles_per_stop:
  assumes "time d = Finite q" and "is_double q" and "\<bar>q\<bar> < 2 ^ 994"
    and "0 \<le> m" and "m \<le> n" and "n \<le> 30"
  shows "increasedShutterTime d n = Some (Finite (q * 2 ^ nat n)) \<and>
         toStringWithFilterStops d n = doubleToString (Finite (q * 2 ^ nat n)) \<and>
         increasedShutterTime d m = Some (Finite (q * 2 ^ nat m)) \<and>
         (0 \<le> q \<longrightarrow> q * 2 ^ nat m \<le> q * 2 ^ nat n)"
proof -
  have bound: "\<bar>q * 2 ^ nat k\<bar> < 2 ^ 1024" if "0 \<le> k" "k \<le> 30" for k :: int
  proof -
    have "(2::rat) ^ nat k \<le> 2 ^ 30" using that by (intro power_increasing) simp_all
    then have "\<bar>q\<bar> * 2 ^ nat k \<le> \<bar>q\<bar> * 2 ^ 30" by (intro mult_left_mono) simp_all
    also have "\<dots> < 2 ^ 994 * 2 ^ 30" using assms(3) by (intro mult_strict_right_mono) simp_all
    also have "\<dots> = (2::rat) ^ 1024" by (simp add: power_add [symmetric])
    finally show ?thesis by (simp add: abs_mult)
  qed
  have inc: "increasedShutterTime d k = Some (Finite (q * 2 ^ nat k))" if "0 \<le> k" "k \<le> 30" for k
    using that fmul_power_of_two [OF assms(2) bound [OF that]] assms(1)
    by (simp add: increasedShutterTime_def shl_one_power)
  have mono: "q * 2 ^ nat m \<le> q * 2 ^ nat n" if "0 \<le> q"
  proof -
    have "(2::rat) ^ nat m \<le> 2 ^ nat n" using assms(4,5) by (intro power_increasing) simp_all
    with that show ?thesis by (intro mult_left_mono)
  qed
  from assms have n: "0 \<le> n" "n \<le> 30" and m: "0 \<le> m" "m \<le> 30" by simp_all
  show ?thesis
    using inc [OF n] inc [OF m] mono by (simp add: toStringWithFilterStops_def)
qed

theorem increasedShutterTime_doubles_per_stop_witness:
  \<open>time (Shutter_seconds 0 3) = Finite (5404319552844595 / 18014398509481984) \<and>
   is_double (5404319552844595 / 18014398509481984) \<and>
   increasedShutterTime (Shutter_seconds 0 3) 5 = Some (Finite (5404319552844595 / 562949953421312)) \<and>
   increasedShutterTime (Shutter_seconds 0 3) 2 = Some (Finite (5404319552844595 / 4503599627370496)) \<and>
   toStringWithFilterStops (Shutter_seconds 0 3) 5 = Some ''    9"6''\<close>
proof -
  have t: "time (Shutter_seconds 0 3) = Finite (5404319552844595 / 18014398509481984)"
    by (simp add: all_eval)
  have i: "is_double (5404319552844595 / 18014398509481984)"
    by (rule is_double_small) (simp_all add: double_eval)
  have b: "\<bar>5404319552844595 / 18014398509481984 :: rat\<bar> < 2 ^ 994"
    by simp
  have f: \<open>doubleToString (Finite (5404319552844595 / 562949953421312)) = Some ''    9"6''\<close>
    by (simp add: all_eval)
  from increasedShutterTime_doubles_per_stop [OF t i b, of 2 5] t i f
  show ?thesis by simp
qed

section \<open>Durations beyond 99 hours\<close>

lemma digit_char_not_space: "d < 10 \<Longrightarrow> digit_char d \<noteq> CHR '' ''"
proof -
  assume "d < 10"
  then have "digit_char d \<in> set ''0123456789''" unfolding digit_char_def by (intro nth_mem) simp
  then show ?thesis by auto
qed

lemma last_digits10: "last (digits10 n) \<noteq> CHR '' ''"
  by (subst digits10.simps) (simp add: digit_char_not_space)

lemma digits10_not_Nil: "digits10 n \<noteq> []"
  using digits10_length_pos [of n] by auto

lemma last_fmt_int: "fmt_int i \<noteq> [] \<and> last (fmt_int i) \<noteq> CHR '' ''"
  by (simp add: fmt_int_def last_digits10 digits10_not_Nil)

lemma last_fmt_int_w: "last (fmt_int_w w i) \<noteq> CHR '' ''"
  using last_fmt_int [of i] by (simp add: fmt_int_w_def pad_left_def)

lemma sentinel_last: "s = ''x      '' \<Longrightarrow> last s = CHR '' ''"
  by simp

lemma tdiv_60_pos:
  assumes "0 < tdiv a 60"
  shows "0 < a \<and> tdiv a 60 = a div 60"
proof -
  have "0 < a"
  proof (rule ccontr)
    assume "\<not> 0 < a"
    then have "tdiv a 60 \<le> 0" by (simp add: tdiv_def sgn_if div_int_pos_iff)
    with assms show False by simp
  qed
  then show ?thesis by (simp add: tdiv_nonneg)
qed

text \<open>
  C4. When the hours computed from the duration exceed 99, \<open>doubleToString\<close> returns a
  string as in every other band: the character \<open>x\<close> left-aligned in a field of seven.
  No other input gives this string, so it marks these durations and nothing else.
\<close>

theorem doubleToString_sentinel:
  "doubleToString input = Some ''x      '' \<longleftrightarrow>
     (\<exists>secondTotal. double_to_int (std_ceil input) = Some secondTotal \<and>
                     99 < tdiv (tdiv secondTotal 60) 60)"
proof
  assume "\<exists>secondTotal. double_to_int (std_ceil input) = Some secondTotal \<and>
                      99 < tdiv (tdiv secondTotal 60) 60"
  then obtain st where c: "double_to_int (std_ceil input) = Some st"
    and h: "99 < tdiv (tdiv st 60) 60" by blast
  from c obtain x where x: "input = Finite x"
    by (cases input) (simp_all add: std_ceil_def double_to_int_def)
  with c have st: "st = \<lceil>x\<rceil>" and r: "in_int_range \<lceil>x\<rceil>"
    by (simp_all add: std_ceil_def double_to_int_def trunc_of_int split: if_splits)
  from h have "0 < tdiv (tdiv st 60) 60" by simp
  then have m: "0 < tdiv st 60" "tdiv (tdiv st 60) 60 = tdiv st 60 div 60" using tdiv_60_pos by blast+
  then have d: "0 < st" "tdiv st 60 = st div 60" using tdiv_60_pos by blast+
  from h m(2) d(2) have hours: "99 < st div 60 div 60" by simp
  then have big: "360000 \<le> st" by linarith
  have lo: "30 < x"
  proof (rule ccontr)
    assume "\<not> 30 < x"
    then have "\<lceil>x\<rceil> \<le> 30" by (simp add: ceiling_le_iff)
    with big st show False by simp
  qed
  have hi: "x \<le> 2147483647"
  proof -
    have "x \<le> of_int \<lceil>x\<rceil>" by simp
    also have "\<dots> \<le> of_int 2147483647" using r unfolding in_int_range_def INT_MAX_def
      by (simp only: of_int_le_iff)
    finally show ?thesis by simp
  qed
  have "\<not> st div 60 \<le> 60" using big by linarith
  with hours show "doubleToString input = Some ''x      ''"
    unfolding x doubleToString_bulb [OF lo hi st] by (simp add: format_eval)
next
  assume a: "doubleToString input = Some ''x      ''"
  show "\<exists>secondTotal. double_to_int (std_ceil input) = Some secondTotal \<and>
                      99 < tdiv (tdiv secondTotal 60) 60"
  proof (cases "fle input (Finite (1 / 4))")
    case True
    with a obtain n where "fmt_int_w 7 n = ''x      ''"
      by (auto simp: doubleToString_def split: bind_splits)
    with last_fmt_int_w [of 7 n] show ?thesis by simp
  next
    case f1: False
    show ?thesis
    proof (cases "fle input (Finite 30)")
      case True
      with a f1 obtain s l where "fmt_int_w 5 s @ [dquote] @ fmt_int l = ''x      ''"
        by (auto simp: doubleToString_def split: bind_splits)
      then have "last (fmt_int_w 5 s @ [dquote] @ fmt_int l) = CHR '' ''" by simp
      with last_fmt_int [of l] show ?thesis by simp
    next
      case f2: False
      with a f1 obtain st where st: "double_to_int (std_ceil input) = Some st"
        and r: "(let minutesTotal = tdiv st 60; seconds = tmod st 60
                 in if minutesTotal \<le> 60 then
                      Some (fmt_int_w 2 minutesTotal @ [squote] @ '' '' @ fmt_int_0w 2 seconds @ [dquote])
                    else
                      let hours = tdiv minutesTotal 60; minutes = tmod minutesTotal 60
                      in if 99 < hours then Some (fmt_char_w 7 CHR ''x'')
                         else Some (fmt_int_w 2 hours @ ''h '' @ fmt_int_0w 2 minutes @ [squote]))
                = Some ''x      ''"
        by (auto simp: doubleToString_def split: bind_splits)
      have "99 < tdiv (tdiv st 60) 60"
      proof (rule ccontr)
        assume n: "\<not> 99 < tdiv (tdiv st 60) 60"
        show False
        proof (cases "tdiv st 60 \<le> 60")
          case True
          with r have "last (fmt_int_w 2 (tdiv st 60) @ [squote] @ '' '' @ fmt_int_0w 2 (tmod st 60) @ [dquote])
                       = CHR '' ''"
            by (simp only: Let_def if_True option.inject sentinel_last)
          then show False by (simp add: dquote_def)
        next
          case False
          with r n have "last (fmt_int_w 2 (tdiv (tdiv st 60) 60) @ ''h ''
                               @ fmt_int_0w 2 (tmod (tdiv st 60) 60) @ [squote]) = CHR '' ''"
            by (simp only: Let_def if_False option.inject sentinel_last)
          then show False by (simp add: squote_def)
        qed
      qed
      with st show ?thesis by blast
    qed
  qed
qed

theorem doubleToString_sentinel_witness:
  \<open>double_to_int (std_ceil (Finite 360000)) = Some 360000 \<and>
   99 < tdiv (tdiv 360000 60) 60 \<and>
   doubleToString (Finite 360000) = Some ''x      '' \<and>
   doubleToString (Finite 359999) = Some (''99h 59'' @ [squote])\<close>
proof -
  have c: "double_to_int (std_ceil (Finite 360000)) = Some 360000"
    by (simp add: double_eval int_eval)
  have h: "99 < tdiv (tdiv 360000 60) 60"
    by (simp add: int_eval)
  from c h have "doubleToString (Finite 360000) = Some ''x      ''"
    unfolding doubleToString_sentinel by blast
  moreover have "doubleToString (Finite 359999) = Some (''99h 59'' @ [squote])"
    by (simp add: all_eval)
  ultimately show ?thesis using c h by blast
qed

section \<open>The tenths of the seconds form\<close>

text \<open>
  C2 fails on the code. Between a quarter of a second and 30 seconds the tenths are
  \<open>std::round\<close> of ten times the fractional part, which is 10 once that part reaches
  0.95: \<open>doubleToString\<close> then prints two digits after the seconds mark, without
  carrying into the seconds, and the field is eight characters wide. So it is for
  31/32 of a second, and for 1/33 s under 5 stops.
\<close>

theorem doubleToString_tenths_reach_ten:
  \<open>doubleToString (Finite (31 / 32)) = Some ''    0"10'' \<and>
   toStringWithFilterStops (Shutter_fraction 33) 5 = Some ''    0"10'' \<and>
   length ''    0"10'' = 8\<close>
  by (simp add: all_eval)

section \<open>The width of the table cells\<close>

text \<open>
  The times of the 52 shutters, as the constructors round them.
\<close>

lemma shutter_times:
  "map time shutters =
     [Finite (1152921504606847 / 4611686018427387904),
      Finite (5764607523034235 / 18446744073709551616),
      Finite (7378697629483821 / 18446744073709551616),
      Finite (1152921504606847 / 2305843009213693952),
      Finite (5764607523034235 / 9223372036854775808),
      Finite (7378697629483821 / 9223372036854775808),
      Finite (1152921504606847 / 1152921504606846976),
      Finite (5764607523034235 / 4611686018427387904),
      Finite (3602879701896397 / 2305843009213693952),
      Finite (1152921504606847 / 576460752303423488),
      Finite (5764607523034235 / 2305843009213693952),
      Finite (3602879701896397 / 1152921504606846976),
      Finite (1152921504606847 / 288230376151711744),
      Finite (5764607523034235 / 1152921504606846976),
      Finite (3602879701896397 / 576460752303423488),
      Finite (1152921504606847 / 144115188075855872),
      Finite (5764607523034235 / 576460752303423488),
      Finite (3602879701896397 / 288230376151711744),
      Finite (4803839602528529 / 288230376151711744),
      Finite (5764607523034235 / 288230376151711744),
      Finite (3602879701896397 / 144115188075855872),
      Finite (4803839602528529 / 144115188075855872),
      Finite (5764607523034235 / 144115188075855872),
      Finite (3602879701896397 / 72057594037927936),
      Finite (4803839602528529 / 72057594037927936),
      Finite (1385722962267845 / 18014398509481984),
      Finite (3602879701896397 / 36028797018963968), Finite (1 / 8),
      Finite (6004799503160661 / 36028797018963968),
      Finite (3602879701896397 / 18014398509481984), Finite (1 / 4),
      Finite (5404319552844595 / 18014398509481984),
      Finite (3602879701896397 / 9007199254740992), Finite (1 / 2),
      Finite (5404319552844595 / 9007199254740992),
      Finite (3602879701896397 / 4503599627370496), Finite 1,
      Finite (5854679515581645 / 4503599627370496),
      Finite (3602879701896397 / 2251799813685248), Finite 2, Finite (5 / 2),
      Finite (3602879701896397 / 1125899906842624), Finite 4, Finite 5, Finite 6, Finite 8,
      Finite 10, Finite 13, Finite 15, Finite 20, Finite 25, Finite 30]"
  by (simp add: shutters_def all_eval)

text \<open>
  Each time is a double, and each time multiplied by \<open>2 ^ n\<close>, for \<open>n = 0\<close> and the
  stops of the twelve combinations, lies where \<open>doubleToString_width\<close> applies: in
  the fraction band, in the BULB band, or in the seconds band with a fractional part
  of at most 15/16.
\<close>

lemma shutter_cells:
  "list_all
     (\<lambda>d. case d of
            Finite q \<Rightarrow>
              is_double q \<and> \<bar>q\<bar> \<le> 2 ^ 64 \<and>
              list_all
                (\<lambda>n. 1 / 2 ^ 23 \<le> q * 2 ^ n \<and> q * 2 ^ n \<le> 2147483647 \<and>
                     (q * 2 ^ n \<le> 1 / 4 \<or> 30 < q * 2 ^ n \<or>
                      q * 2 ^ n - of_int \<lfloor>q * 2 ^ n\<rfloor> \<le> 15 / 16))
                [0, 10, 6, 3, 2, 16, 13, 12, 9, 8, 5, 18, 15]
          | _ \<Rightarrow> False)
     (map time shutters)"
  unfolding shutter_times
  apply (simp only: list.pred_inject list.map double.case)
  apply (simp add: is_double_small double_eval)
  done

text \<open>
  C10. For every shutter of the table, its own time and its time under the stops of
  every combination of \<open>combinedFilters\<close> are formatted without undefined behaviour,
  to a string of exactly seven characters.
\<close>

theorem table_cells_are_seven_wide:
  assumes "populated = Some generated" and "sortFilters generated combinedFilters"
    and "sh \<in> set shutters" and "n = 0 \<or> n \<in> stops ` set combinedFilters"
  shows "(\<exists>s. Shutter_toString sh = Some s \<and> length s = 7) \<and>
         (\<exists>s. toStringWithFilterStops sh n = Some s \<and> length s = 7)"
proof -
  from assms(3) have "time sh \<in> set (map time shutters)" by simp
  with shutter_cells obtain q where q: "time sh = Finite q" "is_double q" "\<bar>q\<bar> \<le> 2 ^ 64"
    and cells: "\<forall>k \<in> set [0, 10, 6, 3, 2, 16, 13, 12, 9, 8, 5, 18, 15].
                  1 / 2 ^ 23 \<le> q * 2 ^ k \<and> q * 2 ^ k \<le> 2147483647 \<and>
                  (q * 2 ^ k \<le> 1 / 4 \<or> 30 < q * 2 ^ k \<or>
                   q * 2 ^ k - of_int \<lfloor>q * 2 ^ k\<rfloor> \<le> 15 / 16)"
    unfolding list_all_iff by (fastforce split: double.splits)
  have w: "\<exists>s. toStringWithFilterStops sh k = Some s \<and> length s = 7"
    if "0 \<le> k" and "nat k \<in> set [0, 10, 6, 3, 2, 16, 13, 12, 9, 8, 5, 18, 15]" for k
  proof -
    from that have "k \<le> 30" by auto
    with q that(1) have "toStringWithFilterStops sh k = doubleToString (Finite (q * 2 ^ nat k))"
      by (intro toStringWithFilterStops_exact)
    moreover from cells that(2)
    have "\<exists>s. doubleToString (Finite (q * 2 ^ nat k)) = Some s \<and> length s = 7"
      by (intro doubleToString_width) blast+
    ultimately show ?thesis by simp
  qed
  have "toStringWithFilterStops sh 0 = doubleToString (Finite (q * 2 ^ nat 0))"
    using q by (intro toStringWithFilterStops_exact) simp_all
  then have "Shutter_toString sh = toStringWithFilterStops sh 0"
    using q(1) by (simp add: Shutter_toString_def)
  with w [of 0] have own: "\<exists>s. Shutter_toString sh = Some s \<and> length s = 7" by simp
  from assms(2) have "set combinedFilters = set generated"
    unfolding sortFilters_def by (blast dest: mset_eq_setD)
  with assms(1,4) have "n \<in> {0, 10, 6, 3, 2, 16, 13, 12, 9, 8, 5, 18, 15}"
    by (auto simp: populated_eval filters_def)
  then have "0 \<le> n" and "nat n \<in> set [0, 10, 6, 3, 2, 16, 13, 12, 9, 8, 5, 18, 15]" by auto
  then have "\<exists>s. toStringWithFilterStops sh n = Some s \<and> length s = 7" by (rule w)
  with own show ?thesis by blast
qed

theorem table_cells_are_seven_wide_witness:
  \<open>populated =
     Some [\<lparr> stops = 10, name = ''1k'' \<rparr>, \<lparr> stops = 6, name = ''64'' \<rparr>,
       \<lparr> stops = 3, name = ''8'' \<rparr>, \<lparr> stops = 2, name = ''4'' \<rparr>,
       \<lparr> stops = 16, name = ''1k 64'' \<rparr>, \<lparr> stops = 13, name = ''1k 8'' \<rparr>,
       \<lparr> stops = 12, name = ''1k 4'' \<rparr>, \<lparr> stops = 9, name = ''64 8'' \<rparr>,
       \<lparr> stops = 8, name = ''64 4'' \<rparr>, \<lparr> stops = 5, name = ''8 4'' \<rparr>,
       \<lparr> stops = 18, name = ''1k 64 4'' \<rparr>, \<lparr> stops = 15, name = ''1k 8 4'' \<rparr>] \<and>
   sortFilters
      [\<lparr> stops = 10, name = ''1k'' \<rparr>, \<lparr> stops = 6, name = ''64'' \<rparr>,
       \<lparr> stops = 3, name = ''8'' \<rparr>, \<lparr> stops = 2, name = ''4'' \<rparr>,
       \<lparr> stops = 16, name = ''1k 64'' \<rparr>, \<lparr> stops = 13, name = ''1k 8'' \<rparr>,
       \<lparr> stops = 12, name = ''1k 4'' \<rparr>, \<lparr> stops = 9, name = ''64 8'' \<rparr>,
       \<lparr> stops = 8, name = ''64 4'' \<rparr>, \<lparr> stops = 5, name = ''8 4'' \<rparr>,
       \<lparr> stops = 18, name = ''1k 64 4'' \<rparr>, \<lparr> stops = 15, name = ''1k 8 4'' \<rparr>]
      [\<lparr> stops = 2, name = ''4'' \<rparr>, \<lparr> stops = 3, name = ''8'' \<rparr>,
       \<lparr> stops = 5, name = ''8 4'' \<rparr>, \<lparr> stops = 6, name = ''64'' \<rparr>,
       \<lparr> stops = 8, name = ''64 4'' \<rparr>, \<lparr> stops = 9, name = ''64 8'' \<rparr>,
       \<lparr> stops = 10, name = ''1k'' \<rparr>, \<lparr> stops = 12, name = ''1k 4'' \<rparr>,
       \<lparr> stops = 13, name = ''1k 8'' \<rparr>, \<lparr> stops = 15, name = ''1k 8 4'' \<rparr>,
       \<lparr> stops = 16, name = ''1k 64'' \<rparr>, \<lparr> stops = 18, name = ''1k 64 4'' \<rparr>] \<and>
   Shutter_fraction 13 \<in> set shutters \<and>
   (\<exists>s. Shutter_toString (Shutter_fraction 13) = Some s \<and> length s = 7) \<and>
   (\<exists>s. toStringWithFilterStops (Shutter_fraction 13) 6 = Some s \<and> length s = 7) \<and>
   toStringWithFilterStops (Shutter_fraction 13) 6 = Some ''    4"9''\<close>
proof -
  have p: "populated =
     Some [\<lparr> stops = 10, name = ''1k'' \<rparr>, \<lparr> stops = 6, name = ''64'' \<rparr>,
       \<lparr> stops = 3, name = ''8'' \<rparr>, \<lparr> stops = 2, name = ''4'' \<rparr>,
       \<lparr> stops = 16, name = ''1k 64'' \<rparr>, \<lparr> stops = 13, name = ''1k 8'' \<rparr>,
       \<lparr> stops = 12, name = ''1k 4'' \<rparr>, \<lparr> stops = 9, name = ''64 8'' \<rparr>,
       \<lparr> stops = 8, name = ''64 4'' \<rparr>, \<lparr> stops = 5, name = ''8 4'' \<rparr>,
       \<lparr> stops = 18, name = ''1k 64 4'' \<rparr>, \<lparr> stops = 15, name = ''1k 8 4'' \<rparr>]"
    by (simp add: populated_eval filters_def)
  have s: "sortFilters
      [\<lparr> stops = 10, name = ''1k'' \<rparr>, \<lparr> stops = 6, name = ''64'' \<rparr>,
       \<lparr> stops = 3, name = ''8'' \<rparr>, \<lparr> stops = 2, name = ''4'' \<rparr>,
       \<lparr> stops = 16, name = ''1k 64'' \<rparr>, \<lparr> stops = 13, name = ''1k 8'' \<rparr>,
       \<lparr> stops = 12, name = ''1k 4'' \<rparr>, \<lparr> stops = 9, name = ''64 8'' \<rparr>,
       \<lparr> stops = 8, name = ''64 4'' \<rparr>, \<lparr> stops = 5, name = ''8 4'' \<rparr>,
       \<lparr> stops = 18, name = ''1k 64 4'' \<rparr>, \<lparr> stops = 15, name = ''1k 8 4'' \<rparr>]
      [\<lparr> stops = 2, name = ''4'' \<rparr>, \<lparr> stops = 3, name = ''8'' \<rparr>,
       \<lparr> stops = 5, name = ''8 4'' \<rparr>, \<lparr> stops = 6, name = ''64'' \<rparr>,
       \<lparr> stops = 8, name = ''64 4'' \<rparr>, \<lparr> stops = 9, name = ''64 8'' \<rparr>,
       \<lparr> stops = 10, name = ''1k'' \<rparr>, \<lparr> stops = 12, name = ''1k 4'' \<rparr>,
       \<lparr> stops = 13, name = ''1k 8'' \<rparr>, \<lparr> stops = 15, name = ''1k 8 4'' \<rparr>,
       \<lparr> stops = 16, name = ''1k 64'' \<rparr>, \<lparr> stops = 18, name = ''1k 64 4'' \<rparr>]"
    by (simp add: sortFilters_def Filter_less_def)
  have m: "Shutter_fraction 13 \<in> set shutters"
    by (simp add: shutters_def)
  have k: "(6::int) = 0 \<or> 6 \<in> stops ` set
      [\<lparr> stops = 2, name = ''4'' \<rparr>, \<lparr> stops = 3, name = ''8'' \<rparr>,
       \<lparr> stops = 5, name = ''8 4'' \<rparr>, \<lparr> stops = 6, name = ''64'' \<rparr>,
       \<lparr> stops = 8, name = ''64 4'' \<rparr>, \<lparr> stops = 9, name = ''64 8'' \<rparr>,
       \<lparr> stops = 10, name = ''1k'' \<rparr>, \<lparr> stops = 12, name = ''1k 4'' \<rparr>,
       \<lparr> stops = 13, name = ''1k 8'' \<rparr>, \<lparr> stops = 15, name = ''1k 8 4'' \<rparr>,
       \<lparr> stops = 16, name = ''1k 64'' \<rparr>, \<lparr> stops = 18, name = ''1k 64 4'' \<rparr>]"
    by simp
  have e: \<open>toStringWithFilterStops (Shutter_fraction 13) 6 = Some ''    4"9''\<close>
    by (simp add: all_eval)
  from table_cells_are_seven_wide [OF p s m k] p s m e show ?thesis by blast
qed

end
